theory Spec2Isabelle
  imports Complex_Main "HOL-Library.AList"
begin

chapter \<open>The program\<close>

section \<open>The flow graph of TopologyCharts.vue\<close>

subsection \<open>Data\<close>

text \<open>
  A JavaScript \<open>Map\<close> iterates in insertion order; \<open>set\<close> on a key that is present
  overwrites the value where the key stands, \<open>set\<close> on a new key appends, \<open>delete\<close>
  removes the entry. That is an association list with \<^const>\<open>AList.update\<close>,
  \<^const>\<open>AList.delete\<close> and \<^const>\<open>map_of\<close> (\<open>get\<close>; \<open>None\<close> is \<open>undefined\<close>,
  so \<open>has\<close> is \<open>map_of m k \<noteq> None\<close>).

  A connection carries the fields the component reads: \<open>conn.metadata.sourceIP\<close>,
  \<open>conn.rule\<close>, \<open>conn.rulePayload\<close>, \<open>conn.chains\<close>. An absent string is the
  empty string and an absent array the empty list: \<open>x || d\<close> and \<open>x ? a : b\<close> take
  the same branch for both.
\<close>

record conn_metadata =
  sourceIP :: string

record connection =
  metadata :: conn_metadata
  rule :: string
  rulePayload :: string
  chains :: "string list"

record node =
  node_id :: nat
  node_name :: string
  node_color :: "string option"

text \<open>
  A link's \<open>source\<close> and \<open>target\<close> are what \<open>Number\<close> makes of the two halves of
  the link's key; \<open>None\<close> stands for \<open>NaN\<close> and \<open>undefined\<close>.
\<close>

record link =
  link_source :: "nat option"
  link_target :: "nat option"
  link_value :: nat

record sankey =
  nodes :: "node list"
  links :: "link list"

text \<open>The three maps and the counter that \<open>sankeyData\<close> declares before its loop.\<close>

record registry =
  nodeMap :: "(string \<times> nat) list"
  linkMap :: "(string \<times> nat) list"
  layerMap :: "(string \<times> nat) list"
  nodeIndex :: nat

subsection \<open>Strings and numbers\<close>

text \<open>\<open>s || d\<close> on strings: the empty string is falsy.\<close>

definition str_or :: "string \<Rightarrow> string \<Rightarrow> string" where
  "str_or s d = (if s = [] then d else s)"

text \<open>\<open>m.get(k) || 0\<close> on a map of numbers: \<open>undefined\<close> and \<open>0\<close> are falsy.\<close>

definition get_or_0 :: "('k \<times> nat) list \<Rightarrow> 'k \<Rightarrow> nat" where
  "get_or_0 m k = (case map_of m k of None \<Rightarrow> 0 | Some v \<Rightarrow> (if v = 0 then 0 else v))"

text \<open>A non-negative integer in a template literal: its decimal digits.\<close>

definition digit_char :: "nat \<Rightarrow> char" where
  "digit_char d = char_of (48 + d)"

fun string_of_nat :: "nat \<Rightarrow> string" where
  "string_of_nat n =
     (if n < 10 then [digit_char n] else string_of_nat (n div 10) @ [digit_char (n mod 10)])"

declare string_of_nat.simps [simp del]

text \<open>The key \<open>`${a}-${b}`\<close> of a link.\<close>

definition link_key :: "nat \<Rightarrow> nat \<Rightarrow> string" where
  "link_key a b = string_of_nat a @ ''-'' @ string_of_nat b"

text \<open>\<open>s.split(sep)\<close> for a separator of one character; \<open>''''.split(sep)\<close> is \<open>['''']\<close>.\<close>

fun split_on :: "char \<Rightarrow> string \<Rightarrow> string list" where
  "split_on sep [] = [[]]"
| "split_on sep (c # cs) =
     (if c = sep then [] # split_on sep cs
      else (case split_on sep cs of
              [] \<Rightarrow> [[c]]
            | w # ws \<Rightarrow> (c # w) # ws))"

text \<open>
  \<open>Number(s)\<close> on a string of decimal digits. Every other string is \<open>None\<close> here: the
  link keys are built from two node ids, so their halves are digit strings
  (lemma \<open>parse_link_key\<close> below).
\<close>

definition is_digit :: "char \<Rightarrow> bool" where
  "is_digit c = (48 \<le> (of_char c :: nat) \<and> (of_char c :: nat) \<le> 57)"

definition digit_val :: "char \<Rightarrow> nat" where
  "digit_val c = of_char c - 48"

definition Number :: "string \<Rightarrow> nat option" where
  "Number s =
     (if s \<noteq> [] \<and> list_all is_digit s
      then Some (foldl (\<lambda>n c. 10 * n + digit_val c) 0 s) else None)"

text \<open>\<open>xs[i]\<close>: \<open>undefined\<close> out of range.\<close>

definition array_get :: "'a list \<Rightarrow> nat \<Rightarrow> 'a option" where
  "array_get xs i = (if i < length xs then Some (xs ! i) else None)"

subsection \<open>sankeyData\<close>

definition layerColors :: "string list" where
  "layerColors = [''#5470c6'', ''#91cc75'', ''#fac858'', ''#ee6666'']"

text \<open>
  \<open>addNode\<close> registers a name that \<open>nodeMap\<close> does not have, with the next index and
  the layer of this call, and returns the index \<open>nodeMap\<close> holds for the name.
\<close>

definition addNode :: "string \<Rightarrow> nat \<Rightarrow> registry \<Rightarrow> nat \<times> registry" where
  "addNode name layer s =
     (case map_of (nodeMap s) name of
        None \<Rightarrow>
          (nodeIndex s,
           s\<lparr>nodeMap := AList.update name (nodeIndex s) (nodeMap s),
             nodeIndex := nodeIndex s + 1,
             layerMap := AList.update name layer (layerMap s)\<rparr>)
      | Some i \<Rightarrow> (i, s))"

text \<open>\<open>linkMap.set(l, (linkMap.get(l) || 0) + 1)\<close>\<close>

definition bumpLink :: "string \<Rightarrow> registry \<Rightarrow> registry" where
  "bumpLink l s = s\<lparr>linkMap := AList.update l (get_or_0 (linkMap s) l + 1) (linkMap s)\<rparr>"

text \<open>The two names that both \<open>sankeyData\<close> and \<open>getNodeTypeName\<close> derive from a connection.\<close>

definition sourceIP_of :: "connection \<Rightarrow> string" where
  "sourceIP_of conn = str_or (sourceIP (metadata conn)) ''Unknown''"

definition rulePayload_of :: "connection \<Rightarrow> string" where
  "rulePayload_of conn =
     (if rulePayload conn \<noteq> [] then rule conn @ '': '' @ rulePayload conn else rule conn)"

text \<open>The body of \<open>connections.forEach\<close>.\<close>

definition processConn :: "connection \<Rightarrow> registry \<Rightarrow> registry" where
  "processConn conn s =
     (if chains conn = [] then s
      else
        let chainLast = last (chains conn);
            chainFirst = hd (chains conn);
            (sourceNode, s1) = addNode (sourceIP_of conn) 0 s;
            (ruleNode, s2) = addNode (rulePayload_of conn) 1 s1;
            (chainLastNode, s3) = addNode chainLast 2 s2;
            (chainFirstNode, s4) = addNode chainFirst 3 s3;
            link1 = link_key sourceNode ruleNode;
            link2 = link_key ruleNode chainLastNode;
            link3 = link_key chainLastNode chainFirstNode
        in bumpLink link3 (bumpLink link2 (bumpLink link1 s4)))"

definition empty_registry :: registry where
  "empty_registry = \<lparr>nodeMap = [], linkMap = [], layerMap = [], nodeIndex = 0\<rparr>"

definition mk_node :: "registry \<Rightarrow> string \<times> nat \<Rightarrow> node" where
  "mk_node s = (\<lambda>(name, index).
     \<lparr>node_id = index, node_name = name,
      node_color = array_get layerColors (get_or_0 (layerMap s) name)\<rparr>)"

definition mk_link :: "string \<times> nat \<Rightarrow> link" where
  "mk_link = (\<lambda>(l, v).
     let parts = map Number (split_on CHR ''-'' l)
     in \<lparr>link_source = (case parts of x # _ \<Rightarrow> x | [] \<Rightarrow> None),
         link_target = (case parts of _ # y # _ \<Rightarrow> y | _ \<Rightarrow> None),
         link_value = v\<rparr>)"

definition sankeyData :: "connection list \<Rightarrow> sankey" where
  "sankeyData conns =
     (if conns = [] then \<lparr>nodes = [], links = []\<rparr>
      else
        let s = fold processConn conns empty_registry
        in \<lparr>nodes = map (mk_node s) (nodeMap s), links = map mk_link (linkMap s)\<rparr>)"

subsection \<open>getNodeTypeName\<close>

text \<open>
  The function returns the translation \<open>t(key)\<close> of one of five keys; the datatype is
  the key.
\<close>

datatype nodeType = unknown | sourceIPAddress | ruleMatch | proxyChainEntry | proxyChainExit

fun scanConnections :: "string \<Rightarrow> connection list \<Rightarrow> nodeType" where
  "scanConnections name [] = unknown"
| "scanConnections name (conn # rest) =
     (if chains conn = [] then scanConnections name rest
      else if name = sourceIP_of conn then sourceIPAddress
      else if name = rulePayload_of conn then ruleMatch
      else if name = last (chains conn) then proxyChainEntry
      else if name = hd (chains conn) then proxyChainExit
      else scanConnections name rest)"

definition getNodeTypeName :: "connection list \<Rightarrow> string \<Rightarrow> nodeType" where
  "getNodeTypeName conns name = (if conns = [] then unknown else scanConnections name conns)"

section \<open>The settings page: menu, swipe and scroll-driven activation\<close>

subsection \<open>Data\<close>

text \<open>
  The enum's values are the non-empty strings \<open>'generalSettings'\<close>, \<open>'backendSettings'\<close>,
  \<open>'proxySettings'\<close>, \<open>'connectionSettings'\<close> and \<open>'overviewSettings'\<close>: every key is
  truthy.
\<close>

datatype MenuKey = general | backend | proxies | connections | overview

text \<open>A menu item; its icon and component play no part in the navigation.\<close>

record MenuItem =
  key :: MenuKey
  label :: string

datatype direction = left | right | up | down | none

text \<open>
  The state of the component and of the part of its environment it reads and writes.
  \<^item> \<open>splitOverviewPage\<close>, \<open>isMiddleScreen\<close>: the two imported reactive flags;
    \<open>scrollContainerRef\<close>: whether the template ref is bound to an element.
  \<^item> \<open>activeMenuKey\<close>, \<open>visibilityRatios\<close>, \<open>updateTimer\<close>: the component's variables
    of these names. A timer handle is a number; \<open>None\<close> is \<open>null\<close>.
  \<^item> \<open>intersectionObservers\<close>: the running observers, each named by the key of the
    item it observes.
  \<^item> \<open>scrolledIntoView\<close>: the calls of \<open>scrollIntoView\<close> made so far, by item key.
  \<^item> \<open>now\<close>, \<open>timers\<close>, \<open>nextTimerId\<close>: the clock and the timeouts of the event loop
    that have been set and have neither fired nor been cleared, as pairs of handle and
    due time, in the order they were set. The only timeout the component sets is the
    one of \<open>debouncedUpdateActiveMenu\<close>, so a timer needs no callback field.
  \<^item> \<open>recomputed\<close>: a history variable, not in the source. Every run of the timeout's
    callback appends the visibility map it ran \<open>updateActiveMenuByVisibility\<close> on.
\<close>

record page =
  splitOverviewPage :: bool
  isMiddleScreen :: bool
  scrollContainerRef :: bool
  activeMenuKey :: MenuKey
  visibilityRatios :: "(MenuKey \<times> real) list"
  updateTimer :: "nat option"
  intersectionObservers :: "MenuKey list"
  scrolledIntoView :: "MenuKey list"
  now :: nat
  timers :: "(nat \<times> nat) list"
  nextTimerId :: nat
  recomputed :: "(MenuKey \<times> real) list list"

subsection \<open>Menu and swipe navigation\<close>

definition menuItems :: "page \<Rightarrow> MenuItem list" where
  "menuItems s =
     (let overviewItem = \<lparr>key = overview, label = ''overviewSettings''\<rparr>;
          items = [\<lparr>key = general, label = ''zashboardSettings''\<rparr>,
                   \<lparr>key = backend, label = ''backendSettings''\<rparr>,
                   \<lparr>key = proxies, label = ''proxySettings''\<rparr>,
                   \<lparr>key = connections, label = ''connectionSettings''\<rparr>]
      in if splitOverviewPage s then items @ [overviewItem] else overviewItem # items)"

text \<open>\<open>Array.prototype.findIndex\<close>: the first index whose element satisfies \<open>P\<close>, or \<open>-1\<close>.\<close>

fun findIndex :: "('a \<Rightarrow> bool) \<Rightarrow> 'a list \<Rightarrow> int" where
  "findIndex P [] = - 1"
| "findIndex P (x # xs) =
     (if P x then 0 else (let i = findIndex P xs in if i = - 1 then - 1 else i + 1))"

text \<open>JavaScript's \<open>%\<close> on integers: the remainder has the sign of the dividend.\<close>

definition js_rem :: "int \<Rightarrow> int \<Rightarrow> int" where
  "js_rem a b = sgn a * (\<bar>a\<bar> mod \<bar>b\<bar>)"

text \<open>
  \<open>getItemRef(key)\<close> is \<open>document.getElementById(`item-${key}`)\<close>. The template renders
  the element with that id for every menu item exactly under \<open>v-if="isMiddleScreen"\<close>, and
  every key is the key of a menu item, so the element exists when that flag is set.
\<close>

definition getItemRef :: "page \<Rightarrow> MenuKey \<Rightarrow> bool" where
  "getItemRef s k = isMiddleScreen s"

definition handleMenuClick :: "MenuKey \<Rightarrow> page \<Rightarrow> page" where
  "handleMenuClick k s =
     (let s1 = s\<lparr>activeMenuKey := k\<rparr>
      in if isMiddleScreen s1 then
           (let index = findIndex (\<lambda>item. key item = k) (menuItems s1)
            in if index \<noteq> - 1 \<and> getItemRef s1 k
               then s1\<lparr>scrolledIntoView := scrolledIntoView s1 @ [k]\<rparr> else s1)
         else s1)"

definition getCurrentMenuIndex :: "page \<Rightarrow> int" where
  "getCurrentMenuIndex s = findIndex (\<lambda>item. key item = activeMenuKey s) (menuItems s)"

text \<open>
  In both functions the index computed is within the list (lemmas \<open>nextIndex_in_range\<close>
  and \<open>prevIndex_in_range\<close>); \<open>None\<close> from \<^const>\<open>array_get\<close> would be the source's
  \<open>TypeError\<close> on \<open>undefined.key\<close>, and leaves the state as it is.
\<close>

definition getNextMenuKey :: "page \<Rightarrow> page" where
  "getNextMenuKey s =
     (let currentIndex = getCurrentMenuIndex s
      in if currentIndex = - 1 then s
         else
           (let nextIndex = js_rem (currentIndex + 1) (int (length (menuItems s)))
            in case array_get (menuItems s) (nat nextIndex) of
                 Some item \<Rightarrow> handleMenuClick (key item) s
               | None \<Rightarrow> s))"

definition getPrevMenuKey :: "page \<Rightarrow> page" where
  "getPrevMenuKey s =
     (let currentIndex = getCurrentMenuIndex s
      in if currentIndex = - 1 then s
         else
           (let prevIndex =
                  js_rem (currentIndex - 1 + int (length (menuItems s)))
                    (int (length (menuItems s)))
            in case array_get (menuItems s) (nat prevIndex) of
                 Some item \<Rightarrow> handleMenuClick (key item) s
               | None \<Rightarrow> s))"

text \<open>
  The watcher of the swipe direction. Its second guard (an open modal dialog, a focused
  input, a text selection) reads the document; the event is taken to arrive when that
  guard lets it through.
\<close>

definition onSwipe :: "direction \<Rightarrow> page \<Rightarrow> page" where
  "onSwipe d s =
     (if \<not> isMiddleScreen s then s
      else if d = right then getPrevMenuKey s
      else if d = left then getNextMenuKey s
      else s)"

subsection \<open>The most visible region\<close>

text \<open>
  An intersection ratio is a JavaScript number; it is modelled as a real number, and the
  threshold \<open>0.3\<close> as the real \<open>3/10\<close>.
\<close>

definition scanRatios :: "(MenuKey \<times> real) list \<Rightarrow> real \<times> MenuKey option" where
  "scanRatios m =
     fold (\<lambda>(k, ratio) (maxRatio, mostVisibleKey).
             if ratio > maxRatio then (ratio, Some k) else (maxRatio, mostVisibleKey))
          m (0, None)"

text \<open>The key the function would activate: \<open>mostVisibleKey && maxRatio >= 0.3\<close>.\<close>

definition mostVisible :: "(MenuKey \<times> real) list \<Rightarrow> MenuKey option" where
  "mostVisible m =
     (case scanRatios m of
        (maxRatio, None) \<Rightarrow> None
      | (maxRatio, Some k) \<Rightarrow> (if maxRatio \<ge> 3 / 10 then Some k else None))"

definition updateActiveMenuByVisibility :: "page \<Rightarrow> page" where
  "updateActiveMenuByVisibility s =
     (if \<not> isMiddleScreen s \<or> \<not> scrollContainerRef s then s
      else
        (case mostVisible (visibilityRatios s) of
           None \<Rightarrow> s
         | Some k \<Rightarrow> (if k \<noteq> activeMenuKey s then s\<lparr>activeMenuKey := k\<rparr> else s)))"

subsection \<open>Timeouts and the debounce\<close>

text \<open>\<open>setTimeout(callback, delay)\<close> returns a fresh handle; \<open>clearTimeout\<close> drops the timer.\<close>

definition setTimeout :: "nat \<Rightarrow> page \<Rightarrow> nat \<times> page" where
  "setTimeout delay s =
     (nextTimerId s,
      s\<lparr>timers := timers s @ [(nextTimerId s, now s + delay)],
        nextTimerId := nextTimerId s + 1\<rparr>)"

definition clearTimeout :: "nat \<Rightarrow> page \<Rightarrow> page" where
  "clearTimeout i s = s\<lparr>timers := filter (\<lambda>(j, due). j \<noteq> i) (timers s)\<rparr>"

text \<open>The callback that \<open>debouncedUpdateActiveMenu\<close> hands to \<open>setTimeout\<close>.\<close>

definition timerCallback :: "page \<Rightarrow> page" where
  "timerCallback s =
     (updateActiveMenuByVisibility s)
       \<lparr>updateTimer := None, recomputed := recomputed s @ [visibilityRatios s]\<rparr>"

text \<open>\<open>if (updateTimer)\<close>: \<open>null\<close> and the number \<open>0\<close> are falsy.\<close>

definition debouncedUpdateActiveMenu :: "page \<Rightarrow> page" where
  "debouncedUpdateActiveMenu s =
     (let s1 = (case updateTimer s of
                  None \<Rightarrow> s
                | Some i \<Rightarrow> (if i \<noteq> 0 then clearTimeout i s else s));
          (i, s2) = setTimeout 100 s1
      in s2\<lparr>updateTimer := Some i\<rparr>)"

text \<open>
  Time passes by \<open>d\<close>: the timers due by then fire in the order they were set (all have
  the same delay, so that is the order of their due times). The callback sets no timer.
\<close>

definition advance :: "nat \<Rightarrow> page \<Rightarrow> page" where
  "advance d s =
     (let t = now s + d;
          due = filter (\<lambda>(i, w). w \<le> t) (timers s);
          s1 = s\<lparr>now := t, timers := filter (\<lambda>(i, w). \<not> w \<le> t) (timers s)\<rparr>
      in fold (\<lambda>_. timerCallback) due s1)"

subsection \<open>Observers\<close>

text \<open>The callback of the observer of item \<open>k\<close>, called with \<open>entry.intersectionRatio\<close>.\<close>

definition observerCallback :: "MenuKey \<Rightarrow> real \<Rightarrow> page \<Rightarrow> page" where
  "observerCallback k ratio s =
     debouncedUpdateActiveMenu
       (s\<lparr>visibilityRatios :=
            (if ratio > 0 then AList.update k ratio (visibilityRatios s)
             else AList.delete k (visibilityRatios s))\<rparr>)"

text \<open>
  \<open>setupIntersectionObservers\<close>, together with the callback it defers by \<open>nextTick\<close>:
  that one runs before the event loop takes its next event.
\<close>

definition setupIntersectionObservers :: "page \<Rightarrow> page" where
  "setupIntersectionObservers s =
     (let s1 = s\<lparr>intersectionObservers := [], visibilityRatios := []\<rparr>
      in if \<not> isMiddleScreen s1 \<or> \<not> scrollContainerRef s1 then s1
         else s1\<lparr>intersectionObservers :=
                   map key (filter (\<lambda>item. getItemRef s1 (key item)) (menuItems s1))\<rparr>)"

subsection \<open>The component as a transition system\<close>

text \<open>
  What can happen to the mounted component: an observer reports a ratio (only a running
  observer does), time passes, the observers are rebuilt, a menu entry is clicked, a
  swipe is recognised, or one of the two flags changes (the watcher on
  \<open>[menuItems, isMiddleScreen]\<close> then rebuilds the observers).
\<close>

datatype event =
    Observation MenuKey real
  | Elapse nat
  | Rebuild
  | Click MenuKey
  | Swipe direction
  | Resize bool
  | SplitOverview bool

fun step :: "event \<Rightarrow> page \<Rightarrow> page" where
  "step (Observation k ratio) s =
     (if k \<in> set (intersectionObservers s) then observerCallback k ratio s else s)"
| "step (Elapse d) s = advance d s"
| "step Rebuild s = setupIntersectionObservers s"
| "step (Click k) s = handleMenuClick k s"
| "step (Swipe d) s = onSwipe d s"
| "step (Resize b) s = setupIntersectionObservers (s\<lparr>isMiddleScreen := b\<rparr>)"
| "step (SplitOverview b) s = setupIntersectionObservers (s\<lparr>splitOverviewPage := b\<rparr>)"

definition run :: "event list \<Rightarrow> page \<Rightarrow> page" where
  "run evs s = fold step evs s"

text \<open>
  The component once \<open>onMounted\<close> has run. Timer handles start at 1: a browser's
  \<open>setTimeout\<close> returns an integer greater than zero.
\<close>

definition mounted :: "bool \<Rightarrow> bool \<Rightarrow> bool \<Rightarrow> page" where
  "mounted split middle container =
     setupIntersectionObservers
       \<lparr>splitOverviewPage = split, isMiddleScreen = middle, scrollContainerRef = container,
        activeMenuKey = (if split then general else overview),
        visibilityRatios = [], updateTimer = None, intersectionObservers = [],
        scrolledIntoView = [], now = 0, timers = [], nextTimerId = 1, recomputed = []\<rparr>"

section \<open>Notions the properties are stated with\<close>

subsection \<open>Roles of a name in a connection\<close>

text \<open>
  A connection with a non-empty chain produces four names: its source address, its rule
  label, the last and the first element of its chain.
\<close>

definition produces :: "connection \<Rightarrow> string \<Rightarrow> bool" where
  "produces c name =
     (chains c \<noteq> [] \<and>
      (name = sourceIP_of c \<or> name = rulePayload_of c \<or>
       name = last (chains c) \<or> name = hd (chains c)))"

text \<open>
  The role of a name in a connection that produces it, as the specification words it:
  the last element of the chain is the chain exit, the first the chain entry.
\<close>

definition role_spec :: "connection \<Rightarrow> string \<Rightarrow> nodeType" where
  "role_spec c name =
     (if name = sourceIP_of c then sourceIPAddress
      else if name = rulePayload_of c then ruleMatch
      else if name = last (chains c) then proxyChainExit
      else proxyChainEntry)"

definition roleOf_spec :: "connection list \<Rightarrow> string \<Rightarrow> nodeType" where
  "roleOf_spec conns name =
     (case find (\<lambda>c. produces c name) conns of
        None \<Rightarrow> unknown
      | Some c \<Rightarrow> role_spec c name)"

text \<open>The same with the two chain roles the other way round.\<close>

definition role_in :: "connection \<Rightarrow> string \<Rightarrow> nodeType" where
  "role_in c name =
     (if name = sourceIP_of c then sourceIPAddress
      else if name = rulePayload_of c then ruleMatch
      else if name = last (chains c) then proxyChainEntry
      else proxyChainExit)"

subsection \<open>The most visible entry of a visibility map\<close>

text \<open>
  What the scan of \<open>updateActiveMenuByVisibility\<close> has established after the entries
  \<open>m\<close>: the running maximum bounds every ratio, it is 0 while no key is held, and a
  key that is held is the key of the first entry whose ratio is the maximum.
\<close>

definition scan_result :: "(MenuKey \<times> real) list \<Rightarrow> real \<times> MenuKey option \<Rightarrow> bool" where
  "scan_result m res =
     ((\<forall>j<length m. snd (m ! j) \<le> fst res) \<and>
      (snd res = None \<longrightarrow> fst res = 0) \<and>
      (\<forall>k. snd res = Some k \<longrightarrow>
         0 < fst res \<and>
         (\<exists>i<length m. fst (m ! i) = k \<and> snd (m ! i) = fst res \<and>
            (\<forall>j<i. snd (m ! j) < fst res))))"

text \<open>
  Entry \<open>i\<close> of the map has the greatest ratio and is the first entry, in the map's
  iteration order, to have it.
\<close>

definition first_max_at :: "(MenuKey \<times> real) list \<Rightarrow> nat \<Rightarrow> bool" where
  "first_max_at m i =
     (i < length m \<and> (\<forall>j<length m. snd (m ! j) \<le> snd (m ! i)) \<and> (\<forall>j<i. snd (m ! j) < snd (m ! i)))"

subsection \<open>Timers and observation events\<close>

text \<open>
  The relation between the component's timer handle and the timeouts the event loop
  holds: no handle and no timeout, or a handle that is a positive number below the next
  handle and is the handle of the one pending timeout, which falls due within the next
  100 time units.
\<close>

definition timer_ok :: "(nat \<times> nat) list \<Rightarrow> nat option \<Rightarrow> nat \<Rightarrow> nat \<Rightarrow> bool" where
  "timer_ok ts handle next_id t =
     (0 < next_id \<and>
      (case handle of
         None \<Rightarrow> ts = []
       | Some i \<Rightarrow>
           0 < i \<and> i < next_id \<and>
           (case ts of
              [] \<Rightarrow> False
            | (j, due) # rest \<Rightarrow> j = i \<and> rest = [] \<and> t < due \<and> due \<le> t + 100)))"

definition timer_inv :: "page \<Rightarrow> bool" where
  "timer_inv s = timer_ok (timers s) (updateTimer s) (nextTimerId s) (now s)"

text \<open>The timeout pending in \<open>s\<close> was set at the present time of \<open>s\<close>.\<close>

definition just_scheduled :: "page \<Rightarrow> bool" where
  "just_scheduled s =
     (timer_inv s \<and> timers s \<noteq> [] \<and> snd (hd (timers s)) = now s + 100)"

text \<open>An observation reports an intersection ratio, a number between 0 and 1.\<close>

definition ratio_in_range :: "event \<Rightarrow> bool" where
  "ratio_in_range e = (case e of Observation k r \<Rightarrow> 0 \<le> r \<and> r \<le> 1 | _ \<Rightarrow> True)"

text \<open>
  A burst of observations: each entry is the time that passes before the observation,
  the key observed and the ratio reported.
\<close>

fun burst :: "(nat \<times> MenuKey \<times> real) list \<Rightarrow> page \<Rightarrow> page" where
  "burst [] s = s"
| "burst ((gap, k, ratio) # es) s = burst es (observerCallback k ratio (advance gap s))"

subsection \<open>Names, nodes and edges of the flow graph\<close>

text \<open>
  The names a connection hands to \<open>addNode\<close>, in the order of the four calls and each
  with the layer of its call; a connection with an empty chain hands over none.
  \<open>encounters\<close> is that sequence for the whole input: every name in the order in
  which the loop meets it. \<^const>\<open>map_of\<close> of it gives, for a name, the layer of its
  first occurrence.
\<close>

definition conn_names :: "connection \<Rightarrow> (string \<times> nat) list" where
  "conn_names c =
     (if chains c = [] then []
      else [(sourceIP_of c, 0), (rulePayload_of c, 1), (last (chains c), 2), (hd (chains c), 3)])"

definition encounters :: "connection list \<Rightarrow> (string \<times> nat) list" where
  "encounters conns = concat (map conn_names conns)"

text \<open>
  The distinct elements of a list, in the order of their first occurrences.
\<close>

fun first_seen :: "'a list \<Rightarrow> 'a list" where
  "first_seen [] = []"
| "first_seen (x # xs) = x # filter (\<lambda>y. y \<noteq> x) (first_seen xs)"

text \<open>
  The node ids of a graph by name, the three edges of a connection as pairs of the ids
  of its names in the graph, and all such pairs of the input, three for every connection
  with a non-empty chain, in processing order.
\<close>

definition id_of :: "sankey \<Rightarrow> string \<Rightarrow> nat option" where
  "id_of g name = map_option node_id (find (\<lambda>x. node_name x = name) (nodes g))"

definition conn_edges :: "sankey \<Rightarrow> connection \<Rightarrow> (nat option \<times> nat option) list" where
  "conn_edges g c =
     (if chains c = [] then []
      else [(id_of g (sourceIP_of c), id_of g (rulePayload_of c)),
            (id_of g (rulePayload_of c), id_of g (last (chains c))),
            (id_of g (last (chains c)), id_of g (hd (chains c)))])"

definition edge_occurrences :: "connection list \<Rightarrow> (nat option \<times> nat option) list" where
  "edge_occurrences conns = concat (map (conn_edges (sankeyData conns)) conns)"

text \<open>
  The ordered pair a link connects, and the weight the graph records for a pair
  (\<open>None\<close>: the graph has no link for it).
\<close>

definition link_pair :: "link \<Rightarrow> nat option \<times> nat option" where
  "link_pair l = (link_source l, link_target l)"

definition weight_of :: "sankey \<Rightarrow> nat option \<times> nat option \<Rightarrow> nat option" where
  "weight_of g p = map_option link_value (find (\<lambda>l. link_pair l = p) (links g))"

text \<open>
  The three ways in which an edge of a connection is a self-loop at the node named
  \<open>h\<close>: its chain begins and ends with \<open>h\<close> (so for every chain that is just \<open>[h]\<close>),
  its rule label and the last element of its chain are \<open>h\<close>, or its source address and
  its rule label are \<open>h\<close>. \<open>loop_occurrences\<close> counts them over the input.
\<close>

definition loops_at :: "string \<Rightarrow> connection \<Rightarrow> bool" where
  "loops_at h d = (chains d \<noteq> [] \<and> last (chains d) = h \<and> hd (chains d) = h)"

definition rule_loops_at :: "string \<Rightarrow> connection \<Rightarrow> bool" where
  "rule_loops_at h d = (chains d \<noteq> [] \<and> rulePayload_of d = h \<and> last (chains d) = h)"

definition source_loops_at :: "string \<Rightarrow> connection \<Rightarrow> bool" where
  "source_loops_at h d = (chains d \<noteq> [] \<and> sourceIP_of d = h \<and> rulePayload_of d = h)"

definition loop_occurrences :: "string \<Rightarrow> connection list \<Rightarrow> nat" where
  "loop_occurrences h conns =
     length (filter (loops_at h) conns) + length (filter (rule_loops_at h) conns)
       + length (filter (source_loops_at h) conns)"

subsection \<open>Auxiliary notions of the proofs\<close>

text \<open>
  \<open>addNodes\<close> is a run of \<open>addNode\<close> calls that keeps only the registry, \<open>idx\<close> the
  id the registry holds for a name (0 for a name it does not hold), \<open>node_of\<close> the
  node built from an entry of the node map once the whole input is processed,
  \<open>edges_at\<close> the three edges of a connection as pairs of ids of a registry,
  \<open>key_of\<close> the key of a pair of ids in the link map, and \<open>opt_pair\<close> the pair as a link
  carries it. \<open>counts m ks\<close> says that the map \<open>m\<close> holds, for every key, the number of
  its occurrences in \<open>ks\<close>, and no entry for a key that does not occur.
\<close>

definition addNodes :: "(string \<times> nat) list \<Rightarrow> registry \<Rightarrow> registry" where
  "addNodes es s = fold (\<lambda>(name, layer) s'. snd (addNode name layer s')) es s"

definition idx :: "registry \<Rightarrow> string \<Rightarrow> nat" where
  "idx s name = (case map_of (nodeMap s) name of None \<Rightarrow> 0 | Some i \<Rightarrow> i)"

definition node_of :: "connection list \<Rightarrow> string \<times> nat \<Rightarrow> node" where
  "node_of conns = (\<lambda>(name, i).
     \<lparr>node_id = i, node_name = name,
      node_color =
        array_get layerColors (case map_of (encounters conns) name of None \<Rightarrow> 0 | Some l \<Rightarrow> l)\<rparr>)"

definition edges_at :: "registry \<Rightarrow> connection \<Rightarrow> (nat \<times> nat) list" where
  "edges_at s c =
     (if chains c = [] then []
      else [(idx s (sourceIP_of c), idx s (rulePayload_of c)),
            (idx s (rulePayload_of c), idx s (last (chains c))),
            (idx s (last (chains c)), idx s (hd (chains c)))])"

definition key_of :: "nat \<times> nat \<Rightarrow> string" where
  "key_of p = link_key (fst p) (snd p)"

definition opt_pair :: "nat \<times> nat \<Rightarrow> nat option \<times> nat option" where
  "opt_pair p = (Some (fst p), Some (snd p))"

definition counts :: "('k \<times> nat) list \<Rightarrow> 'k list \<Rightarrow> bool" where
  "counts m ks =
     (distinct (map fst m) \<and>
      (\<forall>k. map_of m k = (if count_list ks k = 0 then None else Some (count_list ks k))))"

subsection \<open>Sample connections\<close>

text \<open>
  Two connections from one source that match the same rule and leave through different
  proxies of the group \<open>Proxy\<close>, and one that matches a domain rule and goes through a
  single proxy that has the name of the first rule.
\<close>

definition sample_first :: connection where
  "sample_first =
     \<lparr>metadata = \<lparr>sourceIP = ''10.0.0.1''\<rparr>, rule = ''Match'', rulePayload = [],
      chains = [''HK'', ''Proxy'']\<rparr>"

definition sample_third :: connection where
  "sample_third =
     \<lparr>metadata = \<lparr>sourceIP = ''10.0.0.1''\<rparr>, rule = ''Match'', rulePayload = [],
      chains = [''JP'', ''Proxy'']\<rparr>"

definition sample_second :: connection where
  "sample_second =
     \<lparr>metadata = \<lparr>sourceIP = ''10.0.0.2''\<rparr>, rule = ''Domain'', rulePayload = ''x.com'',
      chains = [''Match'']\<rparr>"

chapter \<open>Properties\<close>

section \<open>The flow graph: empty input and role lookup\<close>

lemma processConn_no_chain: "chains c = [] \<Longrightarrow> processConn c s = s"
  by (simp add: processConn_def)

lemma fold_processConn_no_chains:
  "\<forall>c\<in>set conns. chains c = [] \<Longrightarrow> fold processConn conns s = s"
  by (induction conns arbitrary: s) (simp_all add: processConn_no_chain)

lemma fold_processConn_filter:
  "fold processConn (filter (\<lambda>c. chains c \<noteq> []) conns) s = fold processConn conns s"
  by (induction conns arbitrary: s) (simp_all add: processConn_no_chain)

lemma sankeyData_no_chains:
  assumes "\<forall>c\<in>set conns. chains c = []"
  shows "sankeyData conns = \<lparr>nodes = [], links = []\<rparr>"
  using assms
  by (simp add: sankeyData_def fold_processConn_no_chains empty_registry_def)

text \<open>
  Claim C6. \<open>sankeyData\<close> of the empty connection list, and of a list whose every
  connection has an empty chain, is the graph with no node and no link. A connection
  with an empty chain leaves the three maps untouched, and removing such connections
  from the input does not change the graph.
\<close>

theorem C6_empty_graph:
  "sankeyData [] = \<lparr>nodes = [], links = []\<rparr> \<and>
   ((\<forall>c\<in>set conns. chains c = []) \<longrightarrow> sankeyData conns = \<lparr>nodes = [], links = []\<rparr>) \<and>
   (chains c = [] \<longrightarrow> processConn c s = s) \<and>
   sankeyData (filter (\<lambda>c. chains c \<noteq> []) conns) = sankeyData conns"
proof (intro conjI impI)
  show "sankeyData [] = \<lparr>nodes = [], links = []\<rparr>"
    by (simp add: sankeyData_def)
  show "sankeyData conns = \<lparr>nodes = [], links = []\<rparr>" if "\<forall>c\<in>set conns. chains c = []"
    using that by (rule sankeyData_no_chains)
  show "processConn c s = s" if "chains c = []"
    using that by (rule processConn_no_chain)
  show "sankeyData (filter (\<lambda>c. chains c \<noteq> []) conns) = sankeyData conns"
  proof (cases "filter (\<lambda>c. chains c \<noteq> []) conns = []")
    case True
    then have "\<forall>c\<in>set conns. chains c = []"
      by (simp add: filter_empty_conv)
    then have "sankeyData conns = \<lparr>nodes = [], links = []\<rparr>"
      by (rule sankeyData_no_chains)
    with True show ?thesis
      by (simp add: sankeyData_def)
  next
    case False
    then have "conns \<noteq> []" by auto
    with False show ?thesis
      by (simp add: sankeyData_def fold_processConn_filter)
  qed
qed

theorem C6_empty_graph_witness:
  "chains \<lparr>metadata = \<lparr>sourceIP = ''10.0.0.1''\<rparr>, rule = ''Match'', rulePayload = '''',
           chains = []\<rparr> = [] \<and>
   sankeyData [\<lparr>metadata = \<lparr>sourceIP = ''10.0.0.1''\<rparr>, rule = ''Match'', rulePayload = '''',
                chains = []\<rparr>]
     = \<lparr>nodes = [], links = []\<rparr> \<and>
   processConn \<lparr>metadata = \<lparr>sourceIP = ''10.0.0.1''\<rparr>, rule = ''Match'', rulePayload = '''',
                chains = []\<rparr> empty_registry
     = empty_registry"
  using C6_empty_graph
    [of "[\<lparr>metadata = \<lparr>sourceIP = ''10.0.0.1''\<rparr>, rule = ''Match'', rulePayload = '''',
           chains = []\<rparr>]"
        "\<lparr>metadata = \<lparr>sourceIP = ''10.0.0.1''\<rparr>, rule = ''Match'', rulePayload = '''',
          chains = []\<rparr>"
        empty_registry]
  by simp

lemma scanConnections_find:
  "scanConnections name conns =
     (case find (\<lambda>c. produces c name) conns of None \<Rightarrow> unknown | Some c \<Rightarrow> role_in c name)"
  by (induction conns) (auto simp: produces_def role_in_def)

lemma getNodeTypeName_find:
  "getNodeTypeName conns name =
     (case find (\<lambda>c. produces c name) conns of None \<Rightarrow> unknown | Some c \<Rightarrow> role_in c name)"
  by (cases conns)
    (simp_all add: getNodeTypeName_def scanConnections_find del: scanConnections.simps)

text \<open>
  Claim C1, as stated, fails. For a connection with the chain \<open>[HK, Auto, Proxy]\<close> the
  claim makes the last element \<open>Proxy\<close> the chain exit and the first element \<open>HK\<close> the
  chain entry; \<open>getNodeTypeName\<close> answers \<open>proxyChainEntry\<close> for \<open>Proxy\<close> and
  \<open>proxyChainExit\<close> for \<open>HK\<close>.
\<close>

theorem C1_roleOf_counterexample:
  "last (chains \<lparr>metadata = \<lparr>sourceIP = ''10.0.0.1''\<rparr>, rule = ''Match'', rulePayload = '''',
                 chains = [''HK'', ''Auto'', ''Proxy'']\<rparr>) = ''Proxy'' \<and>
   roleOf_spec [\<lparr>metadata = \<lparr>sourceIP = ''10.0.0.1''\<rparr>, rule = ''Match'', rulePayload = '''',
                 chains = [''HK'', ''Auto'', ''Proxy'']\<rparr>] ''Proxy'' = proxyChainExit \<and>
   getNodeTypeName [\<lparr>metadata = \<lparr>sourceIP = ''10.0.0.1''\<rparr>, rule = ''Match'', rulePayload = '''',
                     chains = [''HK'', ''Auto'', ''Proxy'']\<rparr>] ''Proxy'' = proxyChainEntry \<and>
   hd (chains \<lparr>metadata = \<lparr>sourceIP = ''10.0.0.1''\<rparr>, rule = ''Match'', rulePayload = '''',
               chains = [''HK'', ''Auto'', ''Proxy'']\<rparr>) = ''HK'' \<and>
   roleOf_spec [\<lparr>metadata = \<lparr>sourceIP = ''10.0.0.1''\<rparr>, rule = ''Match'', rulePayload = '''',
                 chains = [''HK'', ''Auto'', ''Proxy'']\<rparr>] ''HK'' = proxyChainEntry \<and>
   getNodeTypeName [\<lparr>metadata = \<lparr>sourceIP = ''10.0.0.1''\<rparr>, rule = ''Match'', rulePayload = '''',
                     chains = [''HK'', ''Auto'', ''Proxy'']\<rparr>] ''HK'' = proxyChainExit"
  by (simp add: getNodeTypeName_def roleOf_spec_def role_spec_def produces_def
      sourceIP_of_def rulePayload_of_def str_or_def)

text \<open>
  Claim C1, amended. \<open>getNodeTypeName\<close> scans the connections in input order and answers
  from the first connection with a non-empty chain that produces the name (\<open>find\<close>
  returns the first match): the source address role, the rule match role, the chain
  entry role for the last element of the chain and the chain exit role for its first
  element, the first of these that applies. It answers \<open>unknown\<close> exactly when no
  connection produces the name.
\<close>

theorem C1_roleOf:
  "getNodeTypeName conns name =
     (case find (\<lambda>c. produces c name) conns of
        None \<Rightarrow> unknown
      | Some c \<Rightarrow> role_in c name) \<and>
   (getNodeTypeName conns name = unknown \<longleftrightarrow> (\<forall>c\<in>set conns. \<not> produces c name)) \<and>
   (chains c \<noteq> [] \<and> name \<noteq> sourceIP_of c \<and> name \<noteq> rulePayload_of c \<longrightarrow>
      (name = last (chains c) \<longrightarrow> role_in c name = proxyChainEntry) \<and>
      (name \<noteq> last (chains c) \<and> name = hd (chains c) \<longrightarrow> role_in c name = proxyChainExit))"
proof (intro conjI)
  show "getNodeTypeName conns name =
     (case find (\<lambda>c. produces c name) conns of None \<Rightarrow> unknown | Some c \<Rightarrow> role_in c name)"
    by (rule getNodeTypeName_find)
  have "role_in c' name \<noteq> unknown" for c'
    by (simp add: role_in_def)
  then show "getNodeTypeName conns name = unknown \<longleftrightarrow> (\<forall>c\<in>set conns. \<not> produces c name)"
    by (auto simp: getNodeTypeName_find find_None_iff find_Some_iff split: option.splits)
  show "chains c \<noteq> [] \<and> name \<noteq> sourceIP_of c \<and> name \<noteq> rulePayload_of c \<longrightarrow>
      (name = last (chains c) \<longrightarrow> role_in c name = proxyChainEntry) \<and>
      (name \<noteq> last (chains c) \<and> name = hd (chains c) \<longrightarrow> role_in c name = proxyChainExit)"
    by (simp add: role_in_def)
qed

theorem C1_roleOf_witness:
  "getNodeTypeName
     [\<lparr>metadata = \<lparr>sourceIP = ''''\<rparr>, rule = ''Domain'', rulePayload = ''x.com'', chains = []\<rparr>,
      \<lparr>metadata = \<lparr>sourceIP = ''10.0.0.1''\<rparr>, rule = ''Match'', rulePayload = '''',
       chains = [''HK'', ''Auto'', ''Proxy'']\<rparr>] ''Proxy'' = proxyChainEntry \<and>
   getNodeTypeName
     [\<lparr>metadata = \<lparr>sourceIP = ''''\<rparr>, rule = ''Domain'', rulePayload = ''x.com'', chains = []\<rparr>,
      \<lparr>metadata = \<lparr>sourceIP = ''10.0.0.1''\<rparr>, rule = ''Match'', rulePayload = '''',
       chains = [''HK'', ''Auto'', ''Proxy'']\<rparr>] ''Domain: x.com'' = unknown"
  using
    C1_roleOf
      [of "[\<lparr>metadata = \<lparr>sourceIP = ''''\<rparr>, rule = ''Domain'', rulePayload = ''x.com'', chains = []\<rparr>,
            \<lparr>metadata = \<lparr>sourceIP = ''10.0.0.1''\<rparr>, rule = ''Match'', rulePayload = '''',
             chains = [''HK'', ''Auto'', ''Proxy'']\<rparr>]" "''Proxy''"]
    C1_roleOf
      [of "[\<lparr>metadata = \<lparr>sourceIP = ''''\<rparr>, rule = ''Domain'', rulePayload = ''x.com'', chains = []\<rparr>,
            \<lparr>metadata = \<lparr>sourceIP = ''10.0.0.1''\<rparr>, rule = ''Match'', rulePayload = '''',
             chains = [''HK'', ''Auto'', ''Proxy'']\<rparr>]" "''Domain: x.com''"]
  by (simp add: produces_def role_in_def sourceIP_of_def rulePayload_of_def str_or_def)

section \<open>The settings page: the most visible region\<close>

lemma scanRatios_snoc:
  "scanRatios (m @ [(k, ratio)]) =
     (case scanRatios m of (maxRatio, mostVisibleKey) \<Rightarrow>
        if ratio > maxRatio then (ratio, Some k) else (maxRatio, mostVisibleKey))"
  by (simp add: scanRatios_def split: prod.splits)

lemma scan_result_scanRatios: "scan_result m (scanRatios m)"
proof (induction m rule: rev_induct)
  case Nil
  show ?case by (simp add: scan_result_def scanRatios_def)
next
  case (snoc x m)
  obtain k ratio where x: "x = (k, ratio)" by (cases x)
  obtain r ko where res: "scanRatios m = (r, ko)" by (cases "scanRatios m")
  from snoc res have bound: "\<forall>j<length m. snd (m ! j) \<le> r"
    and none: "ko = None \<longrightarrow> r = 0"
    and some: "\<forall>k. ko = Some k \<longrightarrow> 0 < r \<and>
             (\<exists>i<length m. fst (m ! i) = k \<and> snd (m ! i) = r \<and> (\<forall>j<i. snd (m ! j) < r))"
    by (simp_all add: scan_result_def)
  have nonneg: "0 \<le> r" using none some by (cases ko) auto
  show ?case
  proof (cases "ratio > r")
    case True
    with nonneg have pos: "0 < ratio" by simp
    have "\<forall>j<length (m @ [x]). snd ((m @ [x]) ! j) \<le> ratio"
      using bound True x by (auto simp: nth_append less_Suc_eq)
    moreover have "\<exists>i<length (m @ [x]). fst ((m @ [x]) ! i) = k \<and> snd ((m @ [x]) ! i) = ratio \<and>
        (\<forall>j<i. snd ((m @ [x]) ! j) < ratio)"
    proof (intro exI [of _ "length m"] conjI allI impI)
      fix j assume "j < length m"
      then show "snd ((m @ [x]) ! j) < ratio"
        using bound True by (auto simp: nth_append)
    qed (simp_all add: x)
    ultimately show ?thesis
      using True pos unfolding scan_result_def x scanRatios_snoc res by simp
  next
    case False
    have b: "\<forall>j<length (m @ [x]). snd ((m @ [x]) ! j) \<le> r"
      using bound False x by (auto simp: nth_append less_Suc_eq)
    have "0 < r \<and> (\<exists>i<length (m @ [x]). fst ((m @ [x]) ! i) = k' \<and> snd ((m @ [x]) ! i) = r \<and>
                (\<forall>j<i. snd ((m @ [x]) ! j) < r))" if "ko = Some k'" for k'
    proof -
      from some that obtain i where i: "i < length m" "fst (m ! i) = k'" "snd (m ! i) = r"
        "\<forall>j<i. snd (m ! j) < r" and "0 < r" by auto
      have "i < length (m @ [x]) \<and> fst ((m @ [x]) ! i) = k' \<and> snd ((m @ [x]) ! i) = r \<and>
                (\<forall>j<i. snd ((m @ [x]) ! j) < r)"
        using i by (auto simp: nth_append)
      then show ?thesis using \<open>0 < r\<close> by blast
    qed
    then have some': "\<forall>k'. ko = Some k' \<longrightarrow> 0 < r \<and>
        (\<exists>i<length (m @ [x]). fst ((m @ [x]) ! i) = k' \<and> snd ((m @ [x]) ! i) = r \<and>
                (\<forall>j<i. snd ((m @ [x]) ! j) < r))" by blast
    have "scanRatios (m @ [x]) = (r, ko)"
      using False by (simp add: x scanRatios_snoc res)
    then show ?thesis
      unfolding scan_result_def using b none some' by simp
  qed
qed

lemma first_max_at_unique: "first_max_at m i \<Longrightarrow> first_max_at m j \<Longrightarrow> i = j"
  unfolding first_max_at_def
  by (metis linorder_neqE_nat not_less)

lemma mostVisible_Some_iff:
  "mostVisible m = Some k \<longleftrightarrow> (\<exists>i. first_max_at m i \<and> fst (m ! i) = k \<and> 3 / 10 \<le> snd (m ! i))"
proof -
  obtain r ko where res: "scanRatios m = (r, ko)" by (cases "scanRatios m")
  have sr: "scan_result m (r, ko)" using scan_result_scanRatios [of m] res by simp
  show ?thesis
  proof
    assume mv: "mostVisible m = Some k"
    then have ko: "ko = Some k" and thr: "3 / 10 \<le> r"
      using res by (auto simp: mostVisible_def split: option.splits if_splits)
    from sr ko obtain i where "i < length m" "fst (m ! i) = k" "snd (m ! i) = r"
      "\<forall>j<i. snd (m ! j) < r" "\<forall>j<length m. snd (m ! j) \<le> r"
      by (auto simp: scan_result_def)
    then have "first_max_at m i \<and> fst (m ! i) = k \<and> 3 / 10 \<le> snd (m ! i)"
      using thr by (simp add: first_max_at_def)
    then show "\<exists>i. first_max_at m i \<and> fst (m ! i) = k \<and> 3 / 10 \<le> snd (m ! i)" ..
  next
    assume "\<exists>i. first_max_at m i \<and> fst (m ! i) = k \<and> 3 / 10 \<le> snd (m ! i)"
    then obtain i where i: "first_max_at m i" "fst (m ! i) = k" "3 / 10 \<le> snd (m ! i)" by blast
    then have il: "i < length m" by (simp add: first_max_at_def)
    have "snd (m ! i) \<le> r" using sr il by (simp add: scan_result_def)
    with i have rpos: "3 / 10 \<le> r" by simp
    then have "ko \<noteq> None" using sr by (auto simp: scan_result_def)
    then obtain k' where ko: "ko = Some k'" by auto
    with sr obtain i' where i': "i' < length m" "fst (m ! i') = k'" "snd (m ! i') = r"
      "\<forall>j<i'. snd (m ! j) < r" "\<forall>j<length m. snd (m ! j) \<le> r"
      by (auto simp: scan_result_def)
    then have "first_max_at m i'" by (simp add: first_max_at_def)
    with i(1) have "i = i'" by (rule first_max_at_unique)
    with i' i have "k' = k" by simp
    with ko rpos res show "mostVisible m = Some k"
      by (simp add: mostVisible_def)
  qed
qed

lemma mostVisible_None_iff: "mostVisible m = None \<longleftrightarrow> (\<forall>p\<in>set m. snd p < 3 / 10)"
proof
  assume n: "mostVisible m = None"
  obtain r ko where res: "scanRatios m = (r, ko)" by (cases "scanRatios m")
  have sr: "scan_result m (r, ko)" using scan_result_scanRatios [of m] res by simp
  have "r < 3 / 10"
  proof (cases ko)
    case None
    with sr show ?thesis by (simp add: scan_result_def)
  next
    case (Some k)
    with n res show ?thesis by (simp add: mostVisible_def split: if_splits)
  qed
  moreover have "\<forall>j<length m. snd (m ! j) \<le> r" using sr by (simp add: scan_result_def)
  ultimately show "\<forall>p\<in>set m. snd p < 3 / 10"
    by (fastforce simp: in_set_conv_nth)
next
  assume a: "\<forall>p\<in>set m. snd p < 3 / 10"
  show "mostVisible m = None"
  proof (rule ccontr)
    assume "mostVisible m \<noteq> None"
    then obtain k where "mostVisible m = Some k" by auto
    then obtain i where "first_max_at m i" "3 / 10 \<le> snd (m ! i)"
      by (auto simp: mostVisible_Some_iff)
    then have "m ! i \<in> set m" "3 / 10 \<le> snd (m ! i)" by (simp_all add: first_max_at_def)
    with a show False by fastforce
  qed
qed

text \<open>
  Claim C3. The decision of \<open>updateActiveMenuByVisibility\<close> selects key \<open>k\<close> exactly
  when \<open>k\<close> is the key of the first entry, in the map's iteration order, that has the
  greatest ratio, and that ratio is at least 0.3. It selects nothing exactly when every
  ratio is below 0.3, so in particular for the empty map. With A at 0.25 and B at 0.35 it
  selects B, with A at 0.25 alone nothing, and with A and B both at 0.5, A inserted
  first, it selects A. When the function passes its guard, the active menu key becomes
  the selected key, and stays as it is when nothing is selected.
\<close>

theorem C3_mostVisible:
  "(mostVisible m = Some k \<longleftrightarrow>
      (\<exists>i. first_max_at m i \<and> fst (m ! i) = k \<and> 3 / 10 \<le> snd (m ! i))) \<and>
   (mostVisible m = None \<longleftrightarrow> (\<forall>p\<in>set m. snd p < 3 / 10)) \<and>
   mostVisible [] = None \<and>
   mostVisible [(A, 25 / 100), (B, 35 / 100)] = Some B \<and>
   mostVisible [(A, 25 / 100)] = None \<and>
   mostVisible [(A, 5 / 10), (B, 5 / 10)] = Some A \<and>
   (isMiddleScreen s \<and> scrollContainerRef s \<longrightarrow>
      activeMenuKey (updateActiveMenuByVisibility s) =
        (case mostVisible (visibilityRatios s) of None \<Rightarrow> activeMenuKey s | Some k' \<Rightarrow> k'))"
proof (intro conjI)
  show "mostVisible m = Some k \<longleftrightarrow>
      (\<exists>i. first_max_at m i \<and> fst (m ! i) = k \<and> 3 / 10 \<le> snd (m ! i))"
    by (rule mostVisible_Some_iff)
  show "mostVisible m = None \<longleftrightarrow> (\<forall>p\<in>set m. snd p < 3 / 10)"
    by (rule mostVisible_None_iff)
  show "mostVisible [] = None"
    by (simp add: mostVisible_def scanRatios_def)
  show "mostVisible [(A, 25 / 100), (B, 35 / 100)] = Some B"
    by (simp add: mostVisible_def scanRatios_def)
  show "mostVisible [(A, 25 / 100)] = None"
    by (simp add: mostVisible_def scanRatios_def)
  show "mostVisible [(A, 5 / 10), (B, 5 / 10)] = Some A"
    by (simp add: mostVisible_def scanRatios_def)
  show "isMiddleScreen s \<and> scrollContainerRef s \<longrightarrow>
      activeMenuKey (updateActiveMenuByVisibility s) =
        (case mostVisible (visibilityRatios s) of None \<Rightarrow> activeMenuKey s | Some k' \<Rightarrow> k')"
    by (simp add: updateActiveMenuByVisibility_def split: option.splits)
qed

theorem C3_mostVisible_witness:
  "mostVisible [(general, 25 / 100), (backend, 35 / 100)] = Some backend \<and>
   (\<exists>i. first_max_at [(general, 25 / 100), (backend, 35 / 100)] i \<and>
        fst ([(general, 25 / 100 :: real), (backend, 35 / 100)] ! i) = backend \<and>
        3 / 10 \<le> snd ([(general, 25 / 100 :: real), (backend, 35 / 100)] ! i)) \<and>
   isMiddleScreen
     ((mounted True True True)\<lparr>visibilityRatios := [(general, 25 / 100), (backend, 35 / 100)]\<rparr>) \<and>
   scrollContainerRef
     ((mounted True True True)\<lparr>visibilityRatios := [(general, 25 / 100), (backend, 35 / 100)]\<rparr>) \<and>
   activeMenuKey
     (updateActiveMenuByVisibility
        ((mounted True True True)\<lparr>visibilityRatios := [(general, 25 / 100), (backend, 35 / 100)]\<rparr>))
     = backend"
proof -
  have mv: "mostVisible [(general, 25 / 100), (backend, 35 / 100)] = Some backend"
    by (simp add: mostVisible_def scanRatios_def)
  have st: "isMiddleScreen (mounted True True True)" "scrollContainerRef (mounted True True True)"
    by (simp_all add: mounted_def setupIntersectionObservers_def Let_def)
  note inst = C3_mostVisible
      [of "[(general, 25 / 100), (backend, 35 / 100)]" backend general backend
          "(mounted True True True)\<lparr>visibilityRatios := [(general, 25 / 100), (backend, 35 / 100)]\<rparr>"]
  from inst mv have ex: "\<exists>i. first_max_at [(general, 25 / 100), (backend, 35 / 100)] i \<and>
        fst ([(general, 25 / 100 :: real), (backend, 35 / 100)] ! i) = backend \<and>
        3 / 10 \<le> snd ([(general, 25 / 100 :: real), (backend, 35 / 100)] ! i)"
    by blast
  from inst have "activeMenuKey
     (updateActiveMenuByVisibility
        ((mounted True True True)\<lparr>visibilityRatios := [(general, 25 / 100), (backend, 35 / 100)]\<rparr>))
     = (case mostVisible [(general, 25 / 100), (backend, 35 / 100)] of
          None \<Rightarrow> activeMenuKey ((mounted True True True)\<lparr>visibilityRatios := [(general, 25 / 100), (backend, 35 / 100)]\<rparr>)
        | Some k' \<Rightarrow> k')"
    using st by simp
  then have act: "activeMenuKey
     (updateActiveMenuByVisibility
        ((mounted True True True)\<lparr>visibilityRatios := [(general, 25 / 100), (backend, 35 / 100)]\<rparr>))
     = backend"
    by (simp only: mv option.case)
  from mv ex st act show ?thesis by simp
qed

section \<open>The settings page: swipe navigation\<close>

lemma findIndex_range:
  "findIndex P xs = - 1 \<or> (0 \<le> findIndex P xs \<and> findIndex P xs < int (length xs))"
  by (induction xs) (auto simp: Let_def)

lemma findIndex_distinct:
  "distinct (map f xs) \<Longrightarrow> i < length xs \<Longrightarrow> findIndex (\<lambda>x. f x = f (xs ! i)) xs = int i"
proof (induction xs arbitrary: i)
  case Nil
  then show ?case by simp
next
  case (Cons x xs)
  show ?case
  proof (cases i)
    case 0
    then show ?thesis by simp
  next
    case (Suc j)
    with Cons.prems have j: "j < length xs" and d: "distinct (map f xs)"
      and nx: "f x \<noteq> f (xs ! j)" by auto
    from Cons.IH [OF d j] have "findIndex (\<lambda>y. f y = f (xs ! j)) xs = int j" .
    with nx Suc show ?thesis by (simp add: Let_def)
  qed
qed

lemma js_rem_nonneg: "0 \<le> a \<Longrightarrow> 0 < b \<Longrightarrow> js_rem a b = a mod b"
  by (cases "a = 0") (simp_all add: js_rem_def)

lemma menuItems_keys:
  "map key (menuItems s) =
     (if splitOverviewPage s then [general, backend, proxies, connections, overview]
      else [overview, general, backend, proxies, connections])"
  by (simp add: menuItems_def)

lemma menuItems_distinct: "distinct (map key (menuItems s))"
  by (simp add: menuItems_keys)

lemma menuItems_length: "length (menuItems s) = 5"
  by (simp add: menuItems_def Let_def)

lemma activeMenuKey_handleMenuClick: "activeMenuKey (handleMenuClick k s) = k"
  by (simp add: handleMenuClick_def Let_def)

lemma nextIndex_in_range:
  assumes "getCurrentMenuIndex s \<noteq> - 1"
  shows "nat (js_rem (getCurrentMenuIndex s + 1) (int (length (menuItems s))))
           < length (menuItems s)"
proof -
  have "0 \<le> getCurrentMenuIndex s"
    using assms findIndex_range [of "\<lambda>item. key item = activeMenuKey s" "menuItems s"]
    by (simp add: getCurrentMenuIndex_def)
  then show ?thesis
    by (simp add: js_rem_nonneg menuItems_length nat_less_iff)
qed

lemma prevIndex_in_range:
  assumes "getCurrentMenuIndex s \<noteq> - 1"
  shows "nat (js_rem (getCurrentMenuIndex s - 1 + int (length (menuItems s)))
                (int (length (menuItems s))))
           < length (menuItems s)"
proof -
  have "0 \<le> getCurrentMenuIndex s"
    using assms findIndex_range [of "\<lambda>item. key item = activeMenuKey s" "menuItems s"]
    by (simp add: getCurrentMenuIndex_def)
  then show ?thesis
    by (simp add: js_rem_nonneg menuItems_length nat_less_iff)
qed

lemma currentIndex_at:
  assumes "i < length (menuItems s)" "activeMenuKey s = key (menuItems s ! i)"
  shows "getCurrentMenuIndex s = int i"
  using findIndex_distinct [OF menuItems_distinct assms(1)] assms(2)
  by (simp add: getCurrentMenuIndex_def)

lemma getNextMenuKey_at:
  assumes "i < length (menuItems s)" "activeMenuKey s = key (menuItems s ! i)"
  shows "activeMenuKey (getNextMenuKey s) =
           key (menuItems s ! ((i + 1) mod length (menuItems s)))"
proof -
  let ?n = "length (menuItems s)"
  have ci: "getCurrentMenuIndex s = int i" using assms by (rule currentIndex_at)
  have "int i + 1 = int (i + 1)" by simp
  then have "js_rem (int i + 1) (int ?n) = int ((i + 1) mod ?n)"
    by (simp only: js_rem_nonneg menuItems_length zmod_int)
  moreover have "(i + 1) mod ?n < ?n" by (simp add: menuItems_length)
  ultimately show ?thesis
    by (simp add: getNextMenuKey_def ci Let_def array_get_def activeMenuKey_handleMenuClick)
qed

lemma getPrevMenuKey_at:
  assumes "i < length (menuItems s)" "activeMenuKey s = key (menuItems s ! i)"
  shows "activeMenuKey (getPrevMenuKey s) =
           key (menuItems s ! ((i + length (menuItems s) - 1) mod length (menuItems s)))"
proof -
  let ?n = "length (menuItems s)"
  have ci: "getCurrentMenuIndex s = int i" using assms by (rule currentIndex_at)
  have "int i - 1 + int ?n = int (i + ?n - 1)"
    by (simp add: menuItems_length)
  then have "js_rem (int i - 1 + int ?n) (int ?n) = int ((i + ?n - 1) mod ?n)"
    by (simp add: js_rem_nonneg menuItems_length zmod_int)
  moreover have "(i + ?n - 1) mod ?n < ?n" by (simp add: menuItems_length)
  ultimately show ?thesis
    by (simp add: getPrevMenuKey_def ci Let_def array_get_def activeMenuKey_handleMenuClick)
qed

text \<open>
  Claim C9. With the active key at position \<open>i\<close> of the menu, \<open>getNextMenuKey\<close> makes
  the key at position \<open>(i + 1) mod n\<close> active and \<open>getPrevMenuKey\<close> the key at position
  \<open>(i + n - 1) mod n\<close>, \<open>n\<close> the number of menu items. So "next" from the last key of
  the menu gives the first key and "previous" from the first key gives the last. On a
  middle screen a swipe to the left is "next" and a swipe to the right is "previous".
\<close>

theorem C9_swipe_cycle:
  "(i < length (menuItems s) \<and> activeMenuKey s = key (menuItems s ! i) \<longrightarrow>
      activeMenuKey (getNextMenuKey s) =
        key (menuItems s ! ((i + 1) mod length (menuItems s))) \<and>
      activeMenuKey (getPrevMenuKey s) =
        key (menuItems s ! ((i + length (menuItems s) - 1) mod length (menuItems s)))) \<and>
   (activeMenuKey s = key (last (menuItems s)) \<longrightarrow>
      activeMenuKey (getNextMenuKey s) = key (hd (menuItems s))) \<and>
   (activeMenuKey s = key (hd (menuItems s)) \<longrightarrow>
      activeMenuKey (getPrevMenuKey s) = key (last (menuItems s))) \<and>
   (isMiddleScreen s \<longrightarrow>
      onSwipe left s = getNextMenuKey s \<and> onSwipe right s = getPrevMenuKey s)"
proof (intro conjI impI)
  assume "i < length (menuItems s) \<and> activeMenuKey s = key (menuItems s ! i)"
  then have a: "i < length (menuItems s)" "activeMenuKey s = key (menuItems s ! i)" by simp_all
  from a show "activeMenuKey (getNextMenuKey s) =
        key (menuItems s ! ((i + 1) mod length (menuItems s)))"
    by (rule getNextMenuKey_at)
  from a show "activeMenuKey (getPrevMenuKey s) =
        key (menuItems s ! ((i + length (menuItems s) - 1) mod length (menuItems s)))"
    by (rule getPrevMenuKey_at)
next
  assume l: "activeMenuKey s = key (last (menuItems s))"
  have ne: "menuItems s \<noteq> []" using menuItems_length [of s] by auto
  have "last (menuItems s) = menuItems s ! 4"
    using menuItems_length [of s] by (simp add: last_conv_nth ne)
  with l have "activeMenuKey s = key (menuItems s ! 4)" by simp
  from getNextMenuKey_at [OF _ this]
  show "activeMenuKey (getNextMenuKey s) = key (hd (menuItems s))"
    by (simp add: menuItems_length hd_conv_nth ne)
next
  assume h: "activeMenuKey s = key (hd (menuItems s))"
  have ne: "menuItems s \<noteq> []" using menuItems_length [of s] by auto
  from h have "activeMenuKey s = key (menuItems s ! 0)" by (simp add: hd_conv_nth ne)
  from getPrevMenuKey_at [OF _ this]
  show "activeMenuKey (getPrevMenuKey s) = key (last (menuItems s))"
    by (simp add: menuItems_length last_conv_nth ne)
next
  assume "isMiddleScreen s"
  then show "onSwipe left s = getNextMenuKey s" "onSwipe right s = getPrevMenuKey s"
    by (simp_all add: onSwipe_def)
qed

theorem C9_swipe_cycle_witness:
  "activeMenuKey (getNextMenuKey ((mounted True True True)\<lparr>activeMenuKey := overview\<rparr>)) = general \<and>
   activeMenuKey (getPrevMenuKey ((mounted True True True)\<lparr>activeMenuKey := general\<rparr>)) = overview \<and>
   activeMenuKey (onSwipe left ((mounted True True True)\<lparr>activeMenuKey := overview\<rparr>)) = general"
  using C9_swipe_cycle [of 4 "(mounted True True True)\<lparr>activeMenuKey := overview\<rparr>"]
    C9_swipe_cycle [of 0 "(mounted True True True)\<lparr>activeMenuKey := general\<rparr>"]
  by (simp add: mounted_def setupIntersectionObservers_def menuItems_def getItemRef_def)

section \<open>The settings page: timers, observations and the debounce\<close>

lemma timer_inv_cases:
  assumes "timer_inv s"
  obtains (idle) "timers s = []" "updateTimer s = None" "0 < nextTimerId s"
  | (pending) i due where "timers s = [(i, due)]" "updateTimer s = Some i" "0 < i"
      "i < nextTimerId s" "now s < due" "due \<le> now s + 100" "0 < nextTimerId s"
  using assms unfolding timer_inv_def timer_ok_def
  by (auto split: option.splits list.splits prod.splits)

lemma timer_inv_idle:
  "timers s = [] \<Longrightarrow> updateTimer s = None \<Longrightarrow> 0 < nextTimerId s \<Longrightarrow> timer_inv s"
  by (simp add: timer_inv_def timer_ok_def)

lemma timer_inv_pending:
  "timers s = [(i, due)] \<Longrightarrow> updateTimer s = Some i \<Longrightarrow> 0 < i \<Longrightarrow> i < nextTimerId s \<Longrightarrow>
   now s < due \<Longrightarrow> due \<le> now s + 100 \<Longrightarrow> timer_inv s"
  by (simp add: timer_inv_def timer_ok_def)

lemma debounced_fields:
  "visibilityRatios (debouncedUpdateActiveMenu s) = visibilityRatios s"
  "recomputed (debouncedUpdateActiveMenu s) = recomputed s"
  "now (debouncedUpdateActiveMenu s) = now s"
  "activeMenuKey (debouncedUpdateActiveMenu s) = activeMenuKey s"
  "isMiddleScreen (debouncedUpdateActiveMenu s) = isMiddleScreen s"
  "scrollContainerRef (debouncedUpdateActiveMenu s) = scrollContainerRef s"
  "intersectionObservers (debouncedUpdateActiveMenu s) = intersectionObservers s"
  by (simp_all add: debouncedUpdateActiveMenu_def setTimeout_def clearTimeout_def Let_def
      split: option.splits)

lemma debounced_timers:
  assumes "timer_inv s"
  shows "timers (debouncedUpdateActiveMenu s) = [(nextTimerId s, now s + 100)]"
    and "updateTimer (debouncedUpdateActiveMenu s) = Some (nextTimerId s)"
    and "nextTimerId (debouncedUpdateActiveMenu s) = nextTimerId s + 1"
  using assms
  by (cases rule: timer_inv_cases;
      simp add: debouncedUpdateActiveMenu_def setTimeout_def clearTimeout_def Let_def)+

lemma timer_inv_debounced: "timer_inv s \<Longrightarrow> timer_inv (debouncedUpdateActiveMenu s)"
  by (rule timer_inv_pending [where i = "nextTimerId s" and due = "now s + 100"])
    (auto simp: debounced_timers debounced_fields elim: timer_inv_cases)

lemma updateActive_fields:
  "visibilityRatios (updateActiveMenuByVisibility s) = visibilityRatios s"
  "recomputed (updateActiveMenuByVisibility s) = recomputed s"
  "now (updateActiveMenuByVisibility s) = now s"
  "timers (updateActiveMenuByVisibility s) = timers s"
  "nextTimerId (updateActiveMenuByVisibility s) = nextTimerId s"
  "updateTimer (updateActiveMenuByVisibility s) = updateTimer s"
  "isMiddleScreen (updateActiveMenuByVisibility s) = isMiddleScreen s"
  "scrollContainerRef (updateActiveMenuByVisibility s) = scrollContainerRef s"
  "intersectionObservers (updateActiveMenuByVisibility s) = intersectionObservers s"
  by (simp_all add: updateActiveMenuByVisibility_def split: option.splits)

lemma timerCallback_fields:
  "visibilityRatios (timerCallback s) = visibilityRatios s"
  "recomputed (timerCallback s) = recomputed s @ [visibilityRatios s]"
  "now (timerCallback s) = now s"
  "timers (timerCallback s) = timers s"
  "nextTimerId (timerCallback s) = nextTimerId s"
  "updateTimer (timerCallback s) = None"
  "activeMenuKey (timerCallback s) = activeMenuKey (updateActiveMenuByVisibility s)"
  by (simp_all add: timerCallback_def updateActive_fields)

lemma advance_idle: "timers s = [] \<Longrightarrow> advance d s = s\<lparr>now := now s + d\<rparr>"
  by (simp add: advance_def Let_def)

lemma advance_early:
  "timers s = [(i, due)] \<Longrightarrow> now s + d < due \<Longrightarrow> advance d s = s\<lparr>now := now s + d\<rparr>"
  by (simp add: advance_def Let_def)

lemma advance_due:
  "timers s = [(i, due)] \<Longrightarrow> due \<le> now s + d \<Longrightarrow>
   advance d s = timerCallback (s\<lparr>now := now s + d, timers := []\<rparr>)"
  by (simp add: advance_def Let_def)

lemma timer_inv_advance:
  assumes "timer_inv s"
  shows "timer_inv (advance d s)"
  using assms
proof (cases rule: timer_inv_cases)
  case idle
  then show ?thesis by (simp add: advance_idle timer_inv_idle)
next
  case (pending i due)
  show ?thesis
  proof (cases "due \<le> now s + d")
    case True
    with pending show ?thesis
      by (simp add: advance_due timer_inv_idle timerCallback_fields)
  next
    case False
    with pending show ?thesis
      by (simp add: advance_early timer_inv_pending [where i = i and due = due])
  qed
qed

lemma handleMenuClick_fields:
  "visibilityRatios (handleMenuClick k s) = visibilityRatios s"
  "recomputed (handleMenuClick k s) = recomputed s"
  "now (handleMenuClick k s) = now s"
  "timers (handleMenuClick k s) = timers s"
  "nextTimerId (handleMenuClick k s) = nextTimerId s"
  "updateTimer (handleMenuClick k s) = updateTimer s"
  by (simp_all add: handleMenuClick_def Let_def)

lemma getNextMenuKey_fields:
  "visibilityRatios (getNextMenuKey s) = visibilityRatios s"
  "recomputed (getNextMenuKey s) = recomputed s"
  "now (getNextMenuKey s) = now s"
  "timers (getNextMenuKey s) = timers s"
  "nextTimerId (getNextMenuKey s) = nextTimerId s"
  "updateTimer (getNextMenuKey s) = updateTimer s"
  by (simp_all add: getNextMenuKey_def Let_def handleMenuClick_fields split: option.splits)

lemma getPrevMenuKey_fields:
  "visibilityRatios (getPrevMenuKey s) = visibilityRatios s"
  "recomputed (getPrevMenuKey s) = recomputed s"
  "now (getPrevMenuKey s) = now s"
  "timers (getPrevMenuKey s) = timers s"
  "nextTimerId (getPrevMenuKey s) = nextTimerId s"
  "updateTimer (getPrevMenuKey s) = updateTimer s"
  by (simp_all add: getPrevMenuKey_def Let_def handleMenuClick_fields split: option.splits)

lemma onSwipe_fields:
  "visibilityRatios (onSwipe dir s) = visibilityRatios s"
  "recomputed (onSwipe dir s) = recomputed s"
  "now (onSwipe dir s) = now s"
  "timers (onSwipe dir s) = timers s"
  "nextTimerId (onSwipe dir s) = nextTimerId s"
  "updateTimer (onSwipe dir s) = updateTimer s"
  by (simp_all add: onSwipe_def getNextMenuKey_fields getPrevMenuKey_fields)

lemma setup_fields:
  "visibilityRatios (setupIntersectionObservers s) = []"
  "recomputed (setupIntersectionObservers s) = recomputed s"
  "now (setupIntersectionObservers s) = now s"
  "timers (setupIntersectionObservers s) = timers s"
  "nextTimerId (setupIntersectionObservers s) = nextTimerId s"
  "updateTimer (setupIntersectionObservers s) = updateTimer s"
  "activeMenuKey (setupIntersectionObservers s) = activeMenuKey s"
  "isMiddleScreen (setupIntersectionObservers s) = isMiddleScreen s"
  "scrollContainerRef (setupIntersectionObservers s) = scrollContainerRef s"
  by (simp_all add: setupIntersectionObservers_def Let_def)

lemma timer_inv_frame:
  assumes "timer_inv s" "timers s' = timers s" "updateTimer s' = updateTimer s"
    "nextTimerId s' = nextTimerId s" "now s' = now s"
  shows "timer_inv s'"
  using assms by (simp add: timer_inv_def)

lemma timer_inv_observerCallback: "timer_inv s \<Longrightarrow> timer_inv (observerCallback k r s)"
  unfolding observerCallback_def
  by (rule timer_inv_debounced) (simp add: timer_inv_def)

lemma timer_inv_step: "timer_inv s \<Longrightarrow> timer_inv (step e s)"
proof (cases e)
  case (Observation k r)
  assume "timer_inv s"
  then show ?thesis using Observation by (simp add: timer_inv_observerCallback)
next
  case (Elapse d)
  assume "timer_inv s"
  then show ?thesis using Elapse by (simp add: timer_inv_advance)
next
  case Rebuild
  assume "timer_inv s"
  then show ?thesis using Rebuild
    by (simp add: timer_inv_frame [where s = s] setup_fields)
next
  case (Click k)
  assume "timer_inv s"
  then show ?thesis using Click
    by (simp add: timer_inv_frame [where s = s] handleMenuClick_fields)
next
  case (Swipe dir)
  assume "timer_inv s"
  then show ?thesis using Swipe
    by (simp add: timer_inv_frame [where s = s] onSwipe_fields)
next
  case (Resize b)
  assume "timer_inv s"
  then have "timer_inv (s\<lparr>isMiddleScreen := b\<rparr>)" by (simp add: timer_inv_def)
  then show ?thesis using Resize
    by (simp add: timer_inv_frame [where s = "s\<lparr>isMiddleScreen := b\<rparr>"] setup_fields)
next
  case (SplitOverview b)
  assume "timer_inv s"
  then have "timer_inv (s\<lparr>splitOverviewPage := b\<rparr>)" by (simp add: timer_inv_def)
  then show ?thesis using SplitOverview
    by (simp add: timer_inv_frame [where s = "s\<lparr>splitOverviewPage := b\<rparr>"] setup_fields)
qed

lemma timer_inv_run: "timer_inv s \<Longrightarrow> timer_inv (run evs s)"
  unfolding run_def by (induction evs arbitrary: s) (simp_all add: timer_inv_step)

lemma timer_inv_mounted: "timer_inv (mounted split middle container)"
  by (simp add: mounted_def timer_inv_idle setup_fields)

lemma timer_inv_length: "timer_inv s \<Longrightarrow> length (timers s) \<le> 1"
  by (erule timer_inv_cases) simp_all

lemma set_AList_update: "p \<in> set (AList.update k v al) \<Longrightarrow> p = (k, v) \<or> p \<in> set al"
  by (induction al) (auto split: if_splits)

lemma set_AList_delete: "p \<in> set (AList.delete k al) \<Longrightarrow> p \<in> set al"
  by (simp add: AList.delete_eq)

lemma observerCallback_ratios:
  "visibilityRatios (observerCallback k r s) =
     (if r > 0 then AList.update k r (visibilityRatios s)
      else AList.delete k (visibilityRatios s))"
  by (simp add: observerCallback_def debounced_fields)

lemma observerCallback_fields:
  "recomputed (observerCallback k r s) = recomputed s"
  "now (observerCallback k r s) = now s"
  "activeMenuKey (observerCallback k r s) = activeMenuKey s"
  by (simp_all add: observerCallback_def debounced_fields)

lemma advance_ratios: "visibilityRatios (advance d s) = visibilityRatios s"
proof -
  have "visibilityRatios (fold (\<lambda>_. timerCallback) xs s') = visibilityRatios s'"
    for xs :: "(nat \<times> nat) list" and s'
    by (induction xs arbitrary: s') (simp_all add: timerCallback_fields)
  then show ?thesis by (simp add: advance_def Let_def)
qed

lemma ratios_update:
  "\<forall>p\<in>set m. P (snd p) \<Longrightarrow> P v \<Longrightarrow> \<forall>p\<in>set (AList.update k v m). P (snd p)"
  using set_AList_update by fastforce

lemma ratios_delete:
  "\<forall>p\<in>set m. P (snd p) \<Longrightarrow> \<forall>p\<in>set (AList.delete k m). P (snd p)"
  using set_AList_delete by fastforce

lemma observerCallback_pos:
  assumes "\<forall>p\<in>set (visibilityRatios s). 0 < snd p"
  shows "\<forall>p\<in>set (visibilityRatios (observerCallback k r s)). 0 < snd p"
proof (cases "0 < r")
  case True
  with assms show ?thesis
    by (simp only: observerCallback_ratios if_True) (rule ratios_update)
next
  case False
  with assms show ?thesis
    by (simp only: observerCallback_ratios if_False) (rule ratios_delete)
qed

lemma observerCallback_bound:
  assumes "\<forall>p\<in>set (visibilityRatios s). 0 < snd p \<and> snd p \<le> b" "r \<le> b"
  shows "\<forall>p\<in>set (visibilityRatios (observerCallback k r s)). 0 < snd p \<and> snd p \<le> b"
proof (cases "0 < r")
  case True
  have "\<forall>p\<in>set (AList.update k r (visibilityRatios s)). 0 < snd p \<and> snd p \<le> b"
    using assms(1) by (rule ratios_update) (simp add: True assms(2))
  with True show ?thesis
    by (simp only: observerCallback_ratios if_True)
next
  case False
  have "\<forall>p\<in>set (AList.delete k (visibilityRatios s)). 0 < snd p \<and> snd p \<le> b"
    using assms(1) by (rule ratios_delete)
  with False show ?thesis
    by (simp only: observerCallback_ratios if_False)
qed

lemma step_ratios_other:
  assumes "\<And>k r. e \<noteq> Observation k r"
  shows "visibilityRatios (step e s) = visibilityRatios s \<or> visibilityRatios (step e s) = []"
proof (cases e)
  case (Observation k r)
  with assms show ?thesis by blast
qed (simp_all add: advance_ratios setup_fields handleMenuClick_fields onSwipe_fields)

lemma step_ratios_pos:
  assumes "\<forall>p\<in>set (visibilityRatios s). 0 < snd p"
  shows "\<forall>p\<in>set (visibilityRatios (step e s)). 0 < snd p"
proof (cases "\<exists>k r. e = Observation k r")
  case True
  then obtain k r where e: "e = Observation k r" by blast
  from assms have "\<forall>p\<in>set (visibilityRatios (observerCallback k r s)). 0 < snd p"
    by (rule observerCallback_pos)
  with assms show ?thesis
    by (cases "k \<in> set (intersectionObservers s)") (simp_all only: e step.simps if_True if_False)
next
  case False
  then have "visibilityRatios (step e s) = visibilityRatios s \<or> visibilityRatios (step e s) = []"
    by (intro step_ratios_other) blast
  then show ?thesis
  proof
    assume "visibilityRatios (step e s) = visibilityRatios s"
    with assms show ?thesis by (simp only:)
  next
    assume "visibilityRatios (step e s) = []"
    then show ?thesis by (simp only: list.set ball_empty)
  qed
qed

lemma step_ratios_bound:
  assumes "\<forall>p\<in>set (visibilityRatios s). 0 < snd p \<and> snd p \<le> 1"
    and "ratio_in_range e"
  shows "\<forall>p\<in>set (visibilityRatios (step e s)). 0 < snd p \<and> snd p \<le> 1"
proof (cases "\<exists>k r. e = Observation k r")
  case True
  then obtain k r where e: "e = Observation k r" by blast
  with assms(2) have "r \<le> 1" by (simp add: ratio_in_range_def)
  with assms(1) have
    "\<forall>p\<in>set (visibilityRatios (observerCallback k r s)). 0 < snd p \<and> snd p \<le> 1"
    by (rule observerCallback_bound)
  with assms(1) show ?thesis
    by (cases "k \<in> set (intersectionObservers s)") (simp_all only: e step.simps if_True if_False)
next
  case False
  then have "visibilityRatios (step e s) = visibilityRatios s \<or> visibilityRatios (step e s) = []"
    by (intro step_ratios_other) blast
  then show ?thesis
  proof
    assume "visibilityRatios (step e s) = visibilityRatios s"
    with assms(1) show ?thesis by (simp only:)
  next
    assume "visibilityRatios (step e s) = []"
    then show ?thesis by (simp only: list.set ball_empty)
  qed
qed

lemma run_Cons: "run (e # evs) s = run evs (step e s)"
  by (simp add: run_def)

lemma run_Nil: "run [] s = s"
  by (simp add: run_def)

lemma run_ratios_pos:
  "\<forall>p\<in>set (visibilityRatios s). 0 < snd p \<Longrightarrow>
   \<forall>p\<in>set (visibilityRatios (run evs s)). 0 < snd p"
proof (induction evs arbitrary: s)
  case Nil
  then show ?case by (simp only: run_Nil)
next
  case (Cons e evs)
  from Cons.prems have "\<forall>p\<in>set (visibilityRatios (step e s)). 0 < snd p"
    by (rule step_ratios_pos)
  then have "\<forall>p\<in>set (visibilityRatios (run evs (step e s))). 0 < snd p"
    by (rule Cons.IH)
  then show ?case by (simp only: run_Cons)
qed

lemma run_ratios_bound:
  "\<forall>p\<in>set (visibilityRatios s). 0 < snd p \<and> snd p \<le> 1 \<Longrightarrow> list_all ratio_in_range evs \<Longrightarrow>
   \<forall>p\<in>set (visibilityRatios (run evs s)). 0 < snd p \<and> snd p \<le> 1"
proof (induction evs arbitrary: s)
  case Nil
  then show ?case by (simp only: run_Nil)
next
  case (Cons e evs)
  from Cons.prems(2) have e: "ratio_in_range e" and evs: "list_all ratio_in_range evs"
    by simp_all
  from Cons.prems(1) e have "\<forall>p\<in>set (visibilityRatios (step e s)). 0 < snd p \<and> snd p \<le> 1"
    by (rule step_ratios_bound)
  then have "\<forall>p\<in>set (visibilityRatios (run evs (step e s))). 0 < snd p \<and> snd p \<le> 1"
    using evs by (rule Cons.IH)
  then show ?case by (simp only: run_Cons)
qed

lemma just_scheduled_observerCallback:
  assumes "timer_inv s"
  shows "just_scheduled (observerCallback k r s)"
proof -
  let ?s = "s\<lparr>visibilityRatios :=
                (if r > 0 then AList.update k r (visibilityRatios s)
                 else AList.delete k (visibilityRatios s))\<rparr>"
  have inv: "timer_inv ?s" using assms by (simp add: timer_inv_def)
  have "timer_inv (debouncedUpdateActiveMenu ?s)" using inv by (rule timer_inv_debounced)
  moreover have "timers (debouncedUpdateActiveMenu ?s) = [(nextTimerId ?s, now ?s + 100)]"
    using inv by (rule debounced_timers)
  moreover have "now (debouncedUpdateActiveMenu ?s) = now ?s"
    by (rule debounced_fields)
  ultimately show ?thesis
    by (simp add: just_scheduled_def observerCallback_def)
qed

lemma just_scheduled_timers:
  assumes "just_scheduled s"
  obtains i where "timers s = [(i, now s + 100)]"
proof -
  from assms have inv: "timer_inv s" and ne: "timers s \<noteq> []"
    and due: "snd (hd (timers s)) = now s + 100"
    by (simp_all add: just_scheduled_def)
  from inv show ?thesis
  proof (cases rule: timer_inv_cases)
    case idle
    with ne show ?thesis by simp
  next
    case (pending i due')
    with due have "timers s = [(i, now s + 100)]" by simp
    then show ?thesis by (rule that)
  qed
qed

lemma advance_within_quiet:
  assumes "just_scheduled s" "gap < 100"
  shows "advance gap s = s\<lparr>now := now s + gap\<rparr>"
proof -
  from assms(1) obtain i where "timers s = [(i, now s + 100)]" by (rule just_scheduled_timers)
  then show ?thesis using assms(2) by (simp add: advance_early)
qed

lemma burst_quiet:
  assumes "just_scheduled s" "\<forall>e\<in>set es. fst e < 100"
  shows "just_scheduled (burst es s) \<and> recomputed (burst es s) = recomputed s \<and>
         activeMenuKey (burst es s) = activeMenuKey s"
  using assms
proof (induction es arbitrary: s)
  case Nil
  then show ?case by simp
next
  case (Cons e es)
  obtain gap k r where e: "e = (gap, k, r)" by (cases e)
  with Cons.prems(2) have gap: "gap < 100" and rest: "\<forall>e\<in>set es. fst e < 100" by simp_all
  let ?a = "advance gap s"
  let ?s' = "observerCallback k r ?a"
  have a: "?a = s\<lparr>now := now s + gap\<rparr>"
    using Cons.prems(1) gap by (rule advance_within_quiet)
  have "timer_inv s" using Cons.prems(1) by (simp add: just_scheduled_def)
  then have "timer_inv ?a" by (rule timer_inv_advance)
  then have js: "just_scheduled ?s'" by (rule just_scheduled_observerCallback)
  have keep: "recomputed ?s' = recomputed s" "activeMenuKey ?s' = activeMenuKey s"
    by (simp_all add: observerCallback_fields a)
  from Cons.IH [OF js rest] keep show ?case
    by (simp add: e)
qed

lemma advance_after_quiet:
  assumes "just_scheduled s" "100 \<le> d"
  shows "recomputed (advance d s) = recomputed s @ [visibilityRatios s]"
    and "activeMenuKey (advance d s) = activeMenuKey (updateActiveMenuByVisibility s)"
    and "timers (advance d s) = []"
    and "updateTimer (advance d s) = None"
proof -
  from assms(1) obtain i where ts: "timers s = [(i, now s + 100)]" by (rule just_scheduled_timers)
  have adv: "advance d s = timerCallback (s\<lparr>now := now s + d, timers := []\<rparr>)"
    using ts assms(2) by (simp add: advance_due)
  have upd: "activeMenuKey (updateActiveMenuByVisibility (s\<lparr>now := now s + d, timers := []\<rparr>))
               = activeMenuKey (updateActiveMenuByVisibility s)"
    by (simp add: updateActiveMenuByVisibility_def split: option.splits)
  show "recomputed (advance d s) = recomputed s @ [visibilityRatios s]"
    by (simp add: adv timerCallback_fields)
  show "activeMenuKey (advance d s) = activeMenuKey (updateActiveMenuByVisibility s)"
    by (simp add: adv timerCallback_fields upd)
  show "timers (advance d s) = []"
    by (simp add: adv timerCallback_fields)
  show "updateTimer (advance d s) = None"
    by (simp add: adv timerCallback_fields)
qed

lemmas page_eval =
  run_def mounted_def setupIntersectionObservers_def menuItems_def getItemRef_def
  observerCallback_def debouncedUpdateActiveMenu_def setTimeout_def clearTimeout_def
  advance_def timerCallback_def updateActiveMenuByVisibility_def mostVisible_def
  scanRatios_def Let_def

text \<open>
  Claim C7. The callback of an observer stores a ratio above 0 under its key, replacing
  what was there, removes the key for a ratio of 0 (and for any ratio that is not above
  0), and leaves every other key as it is. After any sequence of events of the mounted
  component every ratio in the map is above 0; when the ratios reported lie between 0
  and 1, as intersection ratios do, every ratio in the map lies in (0, 1].
\<close>

theorem C7_ratios_positive:
  "(0 < ratio \<longrightarrow> map_of (visibilityRatios (observerCallback k ratio s)) k = Some ratio) \<and>
   (ratio \<le> 0 \<longrightarrow> map_of (visibilityRatios (observerCallback k ratio s)) k = None) \<and>
   (k' \<noteq> k \<longrightarrow>
      map_of (visibilityRatios (observerCallback k ratio s)) k'
        = map_of (visibilityRatios s) k') \<and>
   (\<forall>p\<in>set (visibilityRatios (run evs (mounted split middle container))). 0 < snd p) \<and>
   (list_all ratio_in_range evs \<longrightarrow>
      (\<forall>p\<in>set (visibilityRatios (run evs (mounted split middle container))).
          0 < snd p \<and> snd p \<le> 1))"
proof (intro conjI impI)
  show "map_of (visibilityRatios (observerCallback k ratio s)) k = Some ratio" if "0 < ratio"
    using that by (simp add: observerCallback_ratios AList.update_conv')
  show "map_of (visibilityRatios (observerCallback k ratio s)) k = None" if "ratio \<le> 0"
    using that by (simp add: observerCallback_ratios AList.delete_conv')
  show "map_of (visibilityRatios (observerCallback k ratio s)) k' = map_of (visibilityRatios s) k'"
    if "k' \<noteq> k"
    using that by (simp add: observerCallback_ratios AList.update_conv' AList.delete_conv')
  have init: "visibilityRatios (mounted split middle container) = []"
    by (simp add: mounted_def setup_fields)
  show "\<forall>p\<in>set (visibilityRatios (run evs (mounted split middle container))). 0 < snd p"
    by (rule run_ratios_pos) (simp add: init)
  show "\<forall>p\<in>set (visibilityRatios (run evs (mounted split middle container))).
          0 < snd p \<and> snd p \<le> 1" if "list_all ratio_in_range evs"
    using _ that by (rule run_ratios_bound) (simp add: init)
qed

theorem C7_ratios_positive_witness:
  "map_of (visibilityRatios (observerCallback general (1 / 2) (mounted True True True))) general
     = Some (1 / 2) \<and>
   map_of (visibilityRatios (observerCallback general 0 (mounted True True True))) general
     = None \<and>
   list_all ratio_in_range [Observation general (1 / 2), Elapse 30, Observation backend 1,
                            Observation general 0] \<and>
   list_all (\<lambda>p. 0 < snd p \<and> snd p \<le> 1)
     (visibilityRatios
        (run [Observation general (1 / 2), Elapse 30, Observation backend 1, Observation general 0]
           (mounted True True True)))"
proof -
  have ok: "list_all ratio_in_range [Observation general (1 / 2), Elapse 30, Observation backend 1,
                            Observation general 0]"
    by (simp add: ratio_in_range_def)
  from C7_ratios_positive
    [of "1 / 2" general "mounted True True True" backend
       "[Observation general (1 / 2), Elapse 30, Observation backend 1, Observation general 0]"
       True True True]
    C7_ratios_positive [of 0 general "mounted True True True" backend "[]" True True True]
    ok
  show ?thesis
    by (simp add: list_all_iff)
qed

text \<open>
  Claim C8. After any sequence of events of the mounted component at most one timeout is
  pending. Scheduling a recomputation leaves exactly the new timeout pending, due 100
  time units later, and makes it the component's handle: a timeout that was pending
  before is gone. When an observation is followed by further observations, each less
  than 100 time units after the one before, no recomputation runs during the burst, and
  once 100 time units (or more) have passed after the last of them exactly one
  recomputation has run: the history of recomputations has grown by one entry, the map
  as the burst left it, and the active key is the one \<open>updateActiveMenuByVisibility\<close>
  picks from that map.
\<close>

theorem C8_single_flight:
  "length (timers (run evs (mounted split middle container))) \<le> 1 \<and>
   timers (debouncedUpdateActiveMenu (run evs (mounted split middle container)))
     = [(nextTimerId (run evs (mounted split middle container)),
         now (run evs (mounted split middle container)) + 100)] \<and>
   updateTimer (debouncedUpdateActiveMenu (run evs (mounted split middle container)))
     = Some (nextTimerId (run evs (mounted split middle container))) \<and>
   ((\<forall>e\<in>set es. fst e < 100) \<and> 100 \<le> d \<longrightarrow>
      (let s = run evs (mounted split middle container);
           s1 = burst es (observerCallback k ratio s);
           s2 = advance d s1
       in recomputed s1 = recomputed s \<and>
          recomputed s2 = recomputed s @ [visibilityRatios s1] \<and>
          activeMenuKey s1 = activeMenuKey s \<and>
          activeMenuKey s2 = activeMenuKey (updateActiveMenuByVisibility s1) \<and>
          timers s2 = [] \<and> updateTimer s2 = None))"
proof -
  define s where "s = run evs (mounted split middle container)"
  have inv: "timer_inv s"
    unfolding s_def by (rule timer_inv_run) (rule timer_inv_mounted)
  have one: "length (timers s) \<le> 1" using inv by (rule timer_inv_length)
  have sched: "timers (debouncedUpdateActiveMenu s) = [(nextTimerId s, now s + 100)]"
    "updateTimer (debouncedUpdateActiveMenu s) = Some (nextTimerId s)"
    using inv by (rule debounced_timers)+
  have burst: "recomputed (burst es (observerCallback k ratio s)) = recomputed s \<and>
      recomputed (advance d (burst es (observerCallback k ratio s)))
        = recomputed s @ [visibilityRatios (burst es (observerCallback k ratio s))] \<and>
      activeMenuKey (burst es (observerCallback k ratio s)) = activeMenuKey s \<and>
      activeMenuKey (advance d (burst es (observerCallback k ratio s)))
        = activeMenuKey (updateActiveMenuByVisibility (burst es (observerCallback k ratio s))) \<and>
      timers (advance d (burst es (observerCallback k ratio s))) = [] \<and>
      updateTimer (advance d (burst es (observerCallback k ratio s))) = None"
    if quiet: "\<forall>e\<in>set es. fst e < 100" and d: "100 \<le> d"
  proof -
    have js0: "just_scheduled (observerCallback k ratio s)"
      using inv by (rule just_scheduled_observerCallback)
    from burst_quiet [OF js0 quiet]
    have js1: "just_scheduled (burst es (observerCallback k ratio s))"
      and r1: "recomputed (burst es (observerCallback k ratio s)) = recomputed s"
      and a1: "activeMenuKey (burst es (observerCallback k ratio s)) = activeMenuKey s"
      by (simp_all add: observerCallback_fields)
    from advance_after_quiet [OF js1 d] r1 a1 show ?thesis by simp
  qed
  from one sched burst show ?thesis
    unfolding s_def [symmetric] Let_def by blast
qed

theorem C8_single_flight_witness:
  "fst (50 :: nat, backend, 1 / 2 :: real) < 100 \<and> fst (99 :: nat, general, 0 :: real) < 100 \<and>
   (100 :: nat) \<le> 100 \<and>
   recomputed
     (advance 100
        (burst [(50, backend, 1 / 2), (99, general, 0)]
           (observerCallback general (7 / 10) (run [] (mounted True True True)))))
     = [[(backend, 1 / 2)]] \<and>
   activeMenuKey
     (advance 100
        (burst [(50, backend, 1 / 2), (99, general, 0)]
           (observerCallback general (7 / 10) (run [] (mounted True True True)))))
     = backend"
proof -
  have map: "visibilityRatios
      (burst [(50, backend, 1 / 2), (99, general, 0)]
         (observerCallback general (7 / 10) (run [] (mounted True True True))))
      = [(backend, 1 / 2)]"
    by (simp add: observerCallback_ratios advance_ratios run_Nil mounted_def setup_fields)
  have rec0: "recomputed (run [] (mounted True True True)) = []"
    by (simp add: run_Nil mounted_def setup_fields)
  have act: "activeMenuKey
      (updateActiveMenuByVisibility
         (burst [(50, backend, 1 / 2), (99, general, 0)]
            (observerCallback general (7 / 10) (run [] (mounted True True True)))))
      = backend"
    by (simp add: page_eval)
  from C8_single_flight
    [of "[]" True True True "[(50, backend, 1 / 2), (99, general, 0)]" 100 general "7 / 10"]
    map rec0 act
  show ?thesis
    by (simp add: Let_def)
qed

text \<open>
  Claim C2, as stated, fails. An observation at time 0 schedules the recomputation for
  time 100, and the observers are rebuilt at time 99: the timeout is still pending after
  the rebuild, and at time 100 it fires and runs the recomputation. The same happens
  when the rebuild comes from leaving the middle screen at time 50, after which no
  observer is left to reschedule anything.
\<close>

theorem C2_rebuild_counterexample:
  "timers (run [Observation general (1 / 2), Elapse 99, Rebuild] (mounted True True True))
     = [(1, 100)] \<and>
   recomputed (run [Observation general (1 / 2), Elapse 99, Rebuild] (mounted True True True))
     = [] \<and>
   recomputed
     (run [Observation general (1 / 2), Elapse 99, Rebuild, Elapse 1] (mounted True True True))
     = [[]] \<and>
   recomputed
     (run [Observation general (1 / 2), Elapse 50, Resize False] (mounted True True True))
     = [] \<and>
   intersectionObservers
     (run [Observation general (1 / 2), Elapse 50, Resize False] (mounted True True True))
     = [] \<and>
   recomputed
     (run [Observation general (1 / 2), Elapse 50, Resize False, Elapse 50]
        (mounted True True True))
     = [[]]"
  by (simp add: page_eval)

text \<open>
  Claim C2, amended. Rebuilding the observers clears the visibility map, and leaves the
  pending timeout and the component's timer handle as they are. A timeout that is pending
  at the rebuild therefore fires when it falls due: its recomputation runs on the cleared
  map (no observation having arrived in between), selects nothing and leaves the active
  key as it is, and the handle is reset.
\<close>

theorem C2_rebuild:
  "visibilityRatios (setupIntersectionObservers s) = [] \<and>
   timers (setupIntersectionObservers s) = timers s \<and>
   updateTimer (setupIntersectionObservers s) = updateTimer s \<and>
   (timers s = [(i, due)] \<and> due \<le> now s + d \<longrightarrow>
      recomputed (advance d (setupIntersectionObservers s)) = recomputed s @ [[]] \<and>
      activeMenuKey (advance d (setupIntersectionObservers s)) = activeMenuKey s \<and>
      timers (advance d (setupIntersectionObservers s)) = [] \<and>
      updateTimer (advance d (setupIntersectionObservers s)) = None)"
proof (intro conjI impI)
  let ?s = "setupIntersectionObservers s"
  show "visibilityRatios ?s = []" "timers ?s = timers s" "updateTimer ?s = updateTimer s"
    by (simp_all add: setup_fields)
  assume "timers s = [(i, due)] \<and> due \<le> now s + d"
  then have ts: "timers ?s = [(i, due)]" and due: "due \<le> now ?s + d"
    by (simp_all add: setup_fields)
  have adv: "advance d ?s = timerCallback (?s\<lparr>now := now ?s + d, timers := []\<rparr>)"
    using ts due by (rule advance_due)
  have none: "mostVisible [] = None"
    by (simp add: mostVisible_def scanRatios_def)
  have upd: "activeMenuKey (updateActiveMenuByVisibility (?s\<lparr>now := now ?s + d, timers := []\<rparr>))
               = activeMenuKey s"
    by (simp add: updateActiveMenuByVisibility_def setup_fields none)
  show "recomputed (advance d ?s) = recomputed s @ [[]]"
    by (simp add: adv timerCallback_fields setup_fields)
  show "activeMenuKey (advance d ?s) = activeMenuKey s"
    by (simp add: adv timerCallback_fields upd)
  show "timers (advance d ?s) = []"
    by (simp add: adv timerCallback_fields)
  show "updateTimer (advance d ?s) = None"
    by (simp add: adv timerCallback_fields)
qed

theorem C2_rebuild_witness:
  "timers (run [Observation general (1 / 2), Elapse 50] (mounted True True True)) = [(1, 100)] \<and>
   (100 :: nat) \<le> now (run [Observation general (1 / 2), Elapse 50] (mounted True True True)) + 50 \<and>
   recomputed
     (advance 50
        (setupIntersectionObservers
           (run [Observation general (1 / 2), Elapse 50] (mounted True True True))))
     = [[]] \<and>
   visibilityRatios
     (setupIntersectionObservers
        (run [Observation general (1 / 2), Elapse 50] (mounted True True True))) = []"
proof -
  have ts: "timers (run [Observation general (1 / 2), Elapse 50] (mounted True True True))
              = [(1, 100)]"
    and nw: "now (run [Observation general (1 / 2), Elapse 50] (mounted True True True)) = 50"
    and rc: "recomputed (run [Observation general (1 / 2), Elapse 50] (mounted True True True)) = []"
    by (simp_all add: page_eval)
  from C2_rebuild
    [of "run [Observation general (1 / 2), Elapse 50] (mounted True True True)" 1 100 50]
  show ?thesis
    by (simp add: ts nw rc)
qed

section \<open>The flow graph: nodes, links and weights\<close>

lemma of_char_digit_char: "d < 10 \<Longrightarrow> (of_char (digit_char d) :: nat) = 48 + d"
  by (simp add: digit_char_def)

lemma is_digit_digit_char: "d < 10 \<Longrightarrow> is_digit (digit_char d)"
  by (simp add: is_digit_def of_char_digit_char)

lemma digit_val_digit_char: "d < 10 \<Longrightarrow> digit_val (digit_char d) = d"
  by (simp add: digit_val_def of_char_digit_char)

lemma is_digit_not_dash: "is_digit c \<Longrightarrow> c \<noteq> CHR ''-''"
  by (auto simp: is_digit_def)

lemma string_of_nat_digits: "list_all is_digit (string_of_nat n)"
proof (induction n rule: string_of_nat.induct)
  case (1 n)
  show ?case
  proof (cases "n < 10")
    case True
    then show ?thesis by (subst string_of_nat.simps) (simp add: is_digit_digit_char)
  next
    case False
    with 1 show ?thesis
      by (subst string_of_nat.simps) (simp add: is_digit_digit_char)
  qed
qed

lemma string_of_nat_nonempty: "string_of_nat n \<noteq> []"
  by (subst string_of_nat.simps) simp

lemma string_of_nat_value:
  "foldl (\<lambda>n c. 10 * n + digit_val c) 0 (string_of_nat n) = n"
proof (induction n rule: string_of_nat.induct)
  case (1 n)
  show ?case
  proof (cases "n < 10")
    case True
    then show ?thesis by (subst string_of_nat.simps) (simp add: digit_val_digit_char)
  next
    case False
    with 1 show ?thesis
      by (subst string_of_nat.simps) (simp add: digit_val_digit_char)
  qed
qed

lemma Number_string_of_nat: "Number (string_of_nat n) = Some n"
  by (simp add: Number_def string_of_nat_digits string_of_nat_nonempty string_of_nat_value)

lemma string_of_nat_no_dash: "CHR ''-'' \<notin> set (string_of_nat n)"
  using string_of_nat_digits [of n] is_digit_not_dash
  by (auto simp: list_all_iff)

lemma split_on_absent: "sep \<notin> set s \<Longrightarrow> split_on sep s = [s]"
  by (induction s) auto

lemma split_on_first:
  "sep \<notin> set xs \<Longrightarrow> split_on sep (xs @ sep # ys) = xs # split_on sep ys"
  by (induction xs) auto

lemma split_link_key:
  "split_on CHR ''-'' (link_key a b) = [string_of_nat a, string_of_nat b]"
  by (simp add: link_key_def split_on_first split_on_absent string_of_nat_no_dash)

lemma parse_link_key:
  "mk_link (link_key a b, v) = \<lparr>link_source = Some a, link_target = Some b, link_value = v\<rparr>"
  by (simp add: mk_link_def split_link_key Number_string_of_nat)

lemma link_key_inject: "link_key a b = link_key c d \<longleftrightarrow> a = c \<and> b = d"
proof
  assume "link_key a b = link_key c d"
  then have "mk_link (link_key a b, 0) = mk_link (link_key c d, 0)" by simp
  then show "a = c \<and> b = d" by (simp add: parse_link_key)
qed simp

lemma set_first_seen: "set (first_seen xs) = set xs"
  by (induction xs) auto

lemma distinct_first_seen: "distinct (first_seen xs)"
  by (induction xs) (auto simp: set_first_seen)

lemma first_seen_snoc:
  "first_seen (xs @ [x]) = (if x \<in> set xs then first_seen xs else first_seen xs @ [x])"
  by (induction xs) (auto simp: set_first_seen)

lemma AList_update_new: "map_of al k = None \<Longrightarrow> AList.update k v al = al @ [(k, v)]"
  by (induction al) (auto split: if_splits)

lemma addNode_fst:
  "fst (addNode n l s) = (case map_of (nodeMap s) n of None \<Rightarrow> nodeIndex s | Some i \<Rightarrow> i)"
  by (simp add: addNode_def split: option.splits)

lemma addNode_known: "map_of (nodeMap s) n = Some i \<Longrightarrow> addNode n l s = (i, s)"
  by (simp add: addNode_def)

lemma addNode_new:
  "map_of (nodeMap s) n = None \<Longrightarrow>
   addNode n l s =
     (nodeIndex s,
      s\<lparr>nodeMap := nodeMap s @ [(n, nodeIndex s)], nodeIndex := nodeIndex s + 1,
        layerMap := AList.update n l (layerMap s)\<rparr>)"
  by (simp add: addNode_def AList_update_new)

lemma addNode_lookup: "map_of (nodeMap (snd (addNode n l s))) n = Some (fst (addNode n l s))"
  by (cases "map_of (nodeMap s) n") (simp_all add: addNode_known addNode_new map_add_def)

lemma addNode_mono:
  "map_of (nodeMap s) m = Some i \<Longrightarrow> map_of (nodeMap (snd (addNode n l s))) m = Some i"
  by (cases "map_of (nodeMap s) n") (auto simp: addNode_known addNode_new map_add_def)

lemma addNode_linkMap: "linkMap (snd (addNode n l s)) = linkMap s"
  by (cases "map_of (nodeMap s) n") (simp_all add: addNode_known addNode_new)

lemma addNode_linkMap_update:
  "snd (addNode n l (s\<lparr>linkMap := m\<rparr>)) = (snd (addNode n l s))\<lparr>linkMap := m\<rparr>"
  by (cases "map_of (nodeMap s) n") (simp_all add: addNode_def)

lemma addNodes_Nil: "addNodes [] s = s"
  by (simp add: addNodes_def)

lemma addNodes_Cons: "addNodes ((n, l) # es) s = addNodes es (snd (addNode n l s))"
  by (simp add: addNodes_def)

lemma addNodes_append: "addNodes (es @ fs) s = addNodes fs (addNodes es s)"
  by (simp add: addNodes_def)

lemma addNodes_snoc: "addNodes (es @ [(n, l)]) s = snd (addNode n l (addNodes es s))"
  by (simp add: addNodes_def)

lemma addNodes_linkMap: "linkMap (addNodes es s) = linkMap s"
  by (induction es arbitrary: s) (auto simp: addNodes_Nil addNodes_Cons addNode_linkMap)

lemma addNodes_linkMap_update: "addNodes es (s\<lparr>linkMap := m\<rparr>) = (addNodes es s)\<lparr>linkMap := m\<rparr>"
  by (induction es arbitrary: s) (auto simp: addNodes_Nil addNodes_Cons addNode_linkMap_update)

lemma addNodes_mono:
  "map_of (nodeMap s) m = Some i \<Longrightarrow> map_of (nodeMap (addNodes es s)) m = Some i"
  by (induction es arbitrary: s) (auto simp: addNodes_Nil addNodes_Cons addNode_mono)

text \<open>The registry after the names \<open>es\<close> have been added to the empty registry.\<close>

lemma addNodes_registry:
  "nodeMap (addNodes es empty_registry)
     = zip (first_seen (map fst es)) [0..<length (first_seen (map fst es))] \<and>
   nodeIndex (addNodes es empty_registry) = length (first_seen (map fst es)) \<and>
   map fst (layerMap (addNodes es empty_registry)) = first_seen (map fst es) \<and>
   (\<forall>n. map_of (layerMap (addNodes es empty_registry)) n = map_of es n)"
proof (induction es rule: rev_induct)
  case Nil
  show ?case by (simp add: addNodes_Nil empty_registry_def)
next
  case (snoc e es)
  obtain n l where e: "e = (n, l)" by (cases e)
  let ?s = "addNodes es empty_registry"
  let ?K = "first_seen (map fst es)"
  from snoc have nm: "nodeMap ?s = zip ?K [0..<length ?K]"
    and ni: "nodeIndex ?s = length ?K"
    and lk: "map fst (layerMap ?s) = ?K"
    and lm: "\<forall>n. map_of (layerMap ?s) n = map_of es n"
    by simp_all
  have keys: "map fst (nodeMap ?s) = ?K" by (simp add: nm)
  show ?case
  proof (cases "n \<in> set (map fst es)")
    case True
    then have "n \<in> set (map fst (nodeMap ?s))" by (simp add: keys set_first_seen)
    then obtain i where i: "map_of (nodeMap ?s) n = Some i"
      by (metis map_of_eq_None_iff not_Some_eq set_map)
    have same: "addNodes (es @ [e]) empty_registry = ?s"
      by (simp add: e addNodes_snoc addNode_known [OF i])
    from True obtain l' where "map_of es n = Some l'"
      by (metis map_of_eq_None_iff not_Some_eq set_map)
    then have "map_of (es @ [e]) n' = map_of es n'" for n'
      by (cases "n' = n") (simp_all add: e map_add_def split: option.splits)
    then have "\<forall>n'. map_of (layerMap ?s) n' = map_of (es @ [e]) n'"
      using lm by simp
    moreover have "first_seen (map fst (es @ [e])) = ?K"
      using True by (simp add: first_seen_snoc e)
    ultimately show ?thesis
      unfolding same using nm ni lk by (simp only:) simp
  next
    case False
    then have "n \<notin> set (map fst (nodeMap ?s))" by (simp add: keys set_first_seen)
    then have none: "map_of (nodeMap ?s) n = None"
      by (simp add: map_of_eq_None_iff)
    from False have "n \<notin> set (map fst (layerMap ?s))" by (simp add: lk set_first_seen)
    then have lnone: "map_of (layerMap ?s) n = None"
      by (simp add: map_of_eq_None_iff)
    have new: "addNodes (es @ [e]) empty_registry =
        ?s\<lparr>nodeMap := nodeMap ?s @ [(n, nodeIndex ?s)], nodeIndex := nodeIndex ?s + 1,
           layerMap := layerMap ?s @ [(n, l)]\<rparr>"
      by (simp add: e addNodes_snoc addNode_new [OF none] AList_update_new [OF lnone])
    have fs: "first_seen (map fst (es @ [e])) = ?K @ [n]"
      using False by (simp add: e first_seen_snoc)
    have "nodeMap (addNodes (es @ [e]) empty_registry)
            = zip (?K @ [n]) [0..<length (?K @ [n])]"
      by (simp add: new nm ni)
    moreover have "nodeIndex (addNodes (es @ [e]) empty_registry) = length (?K @ [n])"
      by (simp add: new ni)
    moreover have "map fst (layerMap (addNodes (es @ [e]) empty_registry)) = ?K @ [n]"
      by (simp add: new lk)
    moreover have "map_of (layerMap (addNodes (es @ [e]) empty_registry)) n' = map_of (es @ [e]) n'"
      for n'
      unfolding new using lm by (simp add: e map_add_def)
    ultimately show ?thesis by (simp only: fs) blast
  qed
qed

lemma idx_Some: "map_of (nodeMap s) n = Some i \<Longrightarrow> idx s n = i"
  by (simp add: idx_def)

lemma bumpLink_nodeMap: "nodeMap (bumpLink l s) = nodeMap s"
  by (simp add: bumpLink_def)

lemma idx_bumpLink: "idx (bumpLink l s) = idx s"
  by (simp add: idx_def fun_eq_iff bumpLink_nodeMap)

lemma bumpLink_as_update: "bumpLink l s = s\<lparr>linkMap := linkMap (bumpLink l s)\<rparr>"
  by (simp add: bumpLink_def)

lemma processConn_chain:
  assumes "chains c \<noteq> []"
  shows "processConn c s =
     (let s4 = addNodes (conn_names c) s
      in bumpLink (link_key (idx s4 (last (chains c))) (idx s4 (hd (chains c))))
           (bumpLink (link_key (idx s4 (rulePayload_of c)) (idx s4 (last (chains c))))
              (bumpLink (link_key (idx s4 (sourceIP_of c)) (idx s4 (rulePayload_of c))) s4)))"
proof -
  define s1 where "s1 = snd (addNode (sourceIP_of c) 0 s)"
  define s2 where "s2 = snd (addNode (rulePayload_of c) 1 s1)"
  define s3 where "s3 = snd (addNode (last (chains c)) 2 s2)"
  define s4 where "s4 = snd (addNode (hd (chains c)) 3 s3)"
  have s4: "addNodes (conn_names c) s = s4"
    using assms by (simp add: conn_names_def addNodes_Cons addNodes_Nil s1_def s2_def s3_def s4_def)
  have "map_of (nodeMap s1) (sourceIP_of c) = Some (fst (addNode (sourceIP_of c) 0 s))"
    unfolding s1_def by (rule addNode_lookup)
  then have "map_of (nodeMap s4) (sourceIP_of c) = Some (fst (addNode (sourceIP_of c) 0 s))"
    unfolding s2_def s3_def s4_def by (intro addNode_mono)
  then have i1: "idx s4 (sourceIP_of c) = fst (addNode (sourceIP_of c) 0 s)"
    by (rule idx_Some)
  have "map_of (nodeMap s2) (rulePayload_of c) = Some (fst (addNode (rulePayload_of c) 1 s1))"
    unfolding s2_def by (rule addNode_lookup)
  then have "map_of (nodeMap s4) (rulePayload_of c) = Some (fst (addNode (rulePayload_of c) 1 s1))"
    unfolding s3_def s4_def by (intro addNode_mono)
  then have i2: "idx s4 (rulePayload_of c) = fst (addNode (rulePayload_of c) 1 s1)"
    by (rule idx_Some)
  have "map_of (nodeMap s3) (last (chains c)) = Some (fst (addNode (last (chains c)) 2 s2))"
    unfolding s3_def by (rule addNode_lookup)
  then have "map_of (nodeMap s4) (last (chains c)) = Some (fst (addNode (last (chains c)) 2 s2))"
    unfolding s4_def by (intro addNode_mono)
  then have i3: "idx s4 (last (chains c)) = fst (addNode (last (chains c)) 2 s2)"
    by (rule idx_Some)
  have "map_of (nodeMap s4) (hd (chains c)) = Some (fst (addNode (hd (chains c)) 3 s3))"
    unfolding s4_def by (rule addNode_lookup)
  then have i4: "idx s4 (hd (chains c)) = fst (addNode (hd (chains c)) 3 s3)"
    by (rule idx_Some)
  have "processConn c s =
      bumpLink (link_key (fst (addNode (last (chains c)) 2 s2)) (fst (addNode (hd (chains c)) 3 s3)))
        (bumpLink (link_key (fst (addNode (rulePayload_of c) 1 s1)) (fst (addNode (last (chains c)) 2 s2)))
          (bumpLink (link_key (fst (addNode (sourceIP_of c) 0 s)) (fst (addNode (rulePayload_of c) 1 s1)))
             s4))"
    using assms
    by (simp add: processConn_def Let_def case_prod_beta s1_def s2_def s3_def s4_def)
  then show ?thesis
    by (simp only: s4 Let_def i1 i2 i3 i4)
qed

lemma processConn_nodes:
  "processConn c s = (addNodes (conn_names c) s)\<lparr>linkMap := linkMap (processConn c s)\<rparr>"
proof (cases "chains c = []")
  case True
  then show ?thesis by (simp add: processConn_no_chain conn_names_def addNodes_Nil)
next
  case False
  then show ?thesis
    by (simp add: processConn_chain Let_def bumpLink_def)
qed

lemma fold_processConn_nodes:
  "fold processConn conns s =
     (addNodes (encounters conns) s)\<lparr>linkMap := linkMap (fold processConn conns s)\<rparr>"
proof (induction conns arbitrary: s)
  case Nil
  show ?case by (simp add: encounters_def addNodes_Nil)
next
  case (Cons c conns)
  let ?m = "linkMap (fold processConn (c # conns) s)"
  have "fold processConn (c # conns) s = fold processConn conns (processConn c s)" by simp
  also have "\<dots> = (addNodes (encounters conns) (processConn c s))
                     \<lparr>linkMap := linkMap (fold processConn conns (processConn c s))\<rparr>"
    by (rule Cons.IH)
  also have "addNodes (encounters conns) (processConn c s)
      = (addNodes (encounters conns) (addNodes (conn_names c) s))
          \<lparr>linkMap := linkMap (processConn c s)\<rparr>"
    by (subst processConn_nodes) (rule addNodes_linkMap_update)
  finally show ?case
    by (simp add: encounters_def addNodes_append)
qed

lemma registry_after:
  "nodeMap (fold processConn conns empty_registry)
     = zip (first_seen (map fst (encounters conns)))
         [0..<length (first_seen (map fst (encounters conns)))]"
  "map fst (layerMap (fold processConn conns empty_registry))
     = first_seen (map fst (encounters conns))"
  "map_of (layerMap (fold processConn conns empty_registry)) n = map_of (encounters conns) n"
  by (subst fold_processConn_nodes, simp add: addNodes_registry)+

lemma get_or_0_map_of: "get_or_0 m k = (case map_of m k of None \<Rightarrow> 0 | Some v \<Rightarrow> v)"
  by (simp add: get_or_0_def split: option.splits)

lemma mk_node_after:
  "mk_node (fold processConn conns empty_registry) = node_of conns"
  by (simp add: mk_node_def node_of_def fun_eq_iff get_or_0_map_of registry_after)

lemma encounters_Nil: "encounters [] = []"
  by (simp add: encounters_def)

lemma encounters_append: "encounters (cs @ ds) = encounters cs @ encounters ds"
  by (simp add: encounters_def)

lemma nodes_sankeyData:
  "nodes (sankeyData conns) =
     map (node_of conns)
       (zip (first_seen (map fst (encounters conns)))
            [0..<length (first_seen (map fst (encounters conns)))])"
  by (cases "conns = []")
    (simp_all add: sankeyData_def encounters_Nil Let_def registry_after mk_node_after)

lemma node_of_name: "map node_name (map (node_of conns) ps) = map fst ps"
  by (induction ps) (simp_all add: node_of_def case_prod_beta)

lemma node_of_id: "map node_id (map (node_of conns) ps) = map snd ps"
  by (induction ps) (simp_all add: node_of_def case_prod_beta)

lemma node_names: "map node_name (nodes (sankeyData conns)) = first_seen (map fst (encounters conns))"
  by (simp only: nodes_sankeyData node_of_name) simp

lemma length_nodes:
  "length (nodes (sankeyData conns)) = length (first_seen (map fst (encounters conns)))"
  by (simp only: nodes_sankeyData) simp

lemma node_ids: "map node_id (nodes (sankeyData conns)) = [0..<length (nodes (sankeyData conns))]"
  by (simp only: length_nodes) (simp only: nodes_sankeyData node_of_id, simp)

lemma encounters_layer: "(n, l) \<in> set (encounters conns) \<Longrightarrow> l < 4"
  by (auto simp: encounters_def conn_names_def split: if_splits)

lemma node_layers:
  assumes "x \<in> set (nodes (sankeyData conns))"
  shows "\<exists>l. map_of (encounters conns) (node_name x) = Some l \<and> l < 4 \<and>
             node_color x = Some (layerColors ! l)"
proof -
  from assms obtain n i where x: "x = node_of conns (n, i)"
    and n: "n \<in> set (first_seen (map fst (encounters conns)))"
    by (auto simp: nodes_sankeyData dest: set_zip_leftD)
  from n have "n \<in> fst ` set (encounters conns)" by (simp add: set_first_seen)
  then obtain l where l: "map_of (encounters conns) n = Some l"
    by (metis map_of_eq_None_iff not_Some_eq)
  then have "(n, l) \<in> set (encounters conns)" by (rule map_of_SomeD)
  then have "l < 4" by (rule encounters_layer)
  then show ?thesis
    using l by (simp add: x node_of_def array_get_def layerColors_def)
qed

lemma first_seen_append:
  "first_seen (xs @ ys) = first_seen xs @ filter (\<lambda>y. y \<notin> set xs) (first_seen ys)"
proof (induction ys rule: rev_induct)
  case Nil
  show ?case by simp
next
  case (snoc y ys)
  have "first_seen (xs @ ys @ [y]) = first_seen ((xs @ ys) @ [y])" by simp
  also have "\<dots> = (if y \<in> set (xs @ ys) then first_seen (xs @ ys) else first_seen (xs @ ys) @ [y])"
    by (rule first_seen_snoc)
  finally show ?case
    using snoc by (auto simp: first_seen_snoc)
qed

lemma nodes_stable: "\<exists>more. nodes (sankeyData (cs @ ds)) = nodes (sankeyData cs) @ more"
proof -
  let ?K = "first_seen (map fst (encounters cs))"
  let ?L = "filter (\<lambda>y. y \<notin> set (map fst (encounters cs))) (first_seen (map fst (encounters ds)))"
  have fs: "first_seen (map fst (encounters (cs @ ds))) = ?K @ ?L"
    by (simp add: encounters_append first_seen_append)
  have same: "node_of (cs @ ds) p = node_of cs p" if "p \<in> set (zip ?K [0..<length ?K])" for p
  proof -
    obtain n i where p: "p = (n, i)" by (cases p)
    with that have "n \<in> set ?K" by (auto dest: set_zip_leftD)
    then have "n \<in> fst ` set (encounters cs)" by (simp add: set_first_seen)
    then obtain l where "map_of (encounters cs) n = Some l"
      by (metis map_of_eq_None_iff not_Some_eq)
    then show ?thesis
      by (simp add: p node_of_def encounters_append map_add_def)
  qed
  have up: "[0..<length ?K + length ?L] = [0..<length ?K] @ [length ?K..<length ?K + length ?L]"
    using upt_add_eq_append [of 0 "length ?K" "length ?L"] by simp
  have z: "zip (?K @ ?L) [0..<length (?K @ ?L)]
          = zip ?K [0..<length ?K] @ zip ?L [length ?K..<length ?K + length ?L]"
    by (simp only: length_append up) (rule zip_append, simp)
  have m: "map (node_of (cs @ ds)) (zip ?K [0..<length ?K]) = map (node_of cs) (zip ?K [0..<length ?K])"
    by (rule map_cong [OF refl]) (rule same)
  have "nodes (sankeyData (cs @ ds))
      = map (node_of cs) (zip ?K [0..<length ?K])
        @ map (node_of (cs @ ds)) (zip ?L [length ?K..<length ?K + length ?L])"
    by (simp only: nodes_sankeyData fs z map_append m)
  also have "map (node_of cs) (zip ?K [0..<length ?K]) = nodes (sankeyData cs)"
    by (simp only: nodes_sankeyData)
  finally show ?thesis by blast
qed

lemma find_append:
  "find P (xs @ ys) = (case find P xs of None \<Rightarrow> find P ys | Some x \<Rightarrow> Some x)"
  by (induction xs) simp_all

lemma node_eq: "x = \<lparr>node_id = node_id x, node_name = node_name x, node_color = node_color x\<rparr>"
  by (cases x) simp

lemma rule_label_node:
  assumes c: "chains c \<noteq> []" and ne: "rulePayload_of c \<noteq> sourceIP_of c"
    and new: "rulePayload_of c \<notin> fst ` set (encounters pre)"
  shows "\<exists>i. \<forall>post.
           find (\<lambda>x. node_name x = rulePayload_of c) (nodes (sankeyData (pre @ c # post)))
             = Some \<lparr>node_id = i, node_name = rulePayload_of c, node_color = Some ''#91cc75''\<rparr>"
proof -
  let ?n = "rulePayload_of c"
  let ?g = "sankeyData (pre @ [c])"
  have enc: "encounters (pre @ [c]) = encounters pre @ conn_names c"
    by (simp add: encounters_def)
  have "map_of (encounters pre) ?n = None"
    using new by (simp add: map_of_eq_None_iff)
  then have layer: "map_of (encounters (pre @ [c])) ?n = Some 1"
    using c ne by (simp add: enc map_add_def conn_names_def)
  then have "?n \<in> fst ` set (encounters (pre @ [c]))"
    by (metis map_of_eq_None_iff option.distinct(1))
  then have "?n \<in> set (map node_name (nodes ?g))"
    by (simp add: node_names set_first_seen)
  then obtain x where x: "x \<in> set (nodes ?g)" "node_name x = ?n" by auto
  then obtain y where y: "find (\<lambda>x. node_name x = ?n) (nodes ?g) = Some y"
    by (cases "find (\<lambda>x. node_name x = ?n) (nodes ?g)") (auto simp: find_None_iff)
  then have yn: "node_name y = ?n" and ys: "y \<in> set (nodes ?g)"
    by (auto simp: find_Some_iff)
  from node_layers [OF ys] layer yn have col: "node_color y = Some ''#91cc75''"
    by (simp add: layerColors_def)
  have yeq: "y = \<lparr>node_id = node_id y, node_name = ?n, node_color = Some ''#91cc75''\<rparr>"
    using node_eq [of y] yn col by simp
  have "find (\<lambda>x. node_name x = ?n) (nodes (sankeyData (pre @ c # post))) = Some y" for post
  proof -
    obtain more where "nodes (sankeyData ((pre @ [c]) @ post)) = nodes ?g @ more"
      using nodes_stable [of "pre @ [c]" post] by blast
    then show ?thesis by (simp add: find_append y)
  qed
  with yeq show ?thesis by metis
qed

text \<open>
  Claim C5. For every input, the names of the nodes of the graph are the distinct names
  the loop meets, in the order of their first occurrences: one node for every name. The
  node ids are 0, 1, 2, ... in that order. The colour of a node is the colour of the
  layer of the first occurrence of its name. Processing more connections only appends
  nodes: the nodes there are keep their ids and colours. In particular, a name that is
  first met as the rule label of a connection has one node, with one id and the colour
  of layer 1, whatever connections follow, also when a later connection has the name as
  an element of its chain.
\<close>

theorem C5_node_identity:
  "map node_name (nodes (sankeyData conns)) = first_seen (map fst (encounters conns)) \<and>
   distinct (map node_name (nodes (sankeyData conns))) \<and>
   set (map node_name (nodes (sankeyData conns))) = fst ` set (encounters conns) \<and>
   map node_id (nodes (sankeyData conns)) = [0..<length (nodes (sankeyData conns))] \<and>
   (\<forall>x\<in>set (nodes (sankeyData conns)).
      \<exists>l. map_of (encounters conns) (node_name x) = Some l \<and> l < 4 \<and>
          node_color x = Some (layerColors ! l)) \<and>
   (\<exists>more. nodes (sankeyData (conns @ later)) = nodes (sankeyData conns) @ more) \<and>
   (chains c \<noteq> [] \<and> rulePayload_of c \<noteq> sourceIP_of c \<and>
    rulePayload_of c \<notin> fst ` set (encounters pre) \<longrightarrow>
      (\<exists>i. \<forall>post.
         find (\<lambda>x. node_name x = rulePayload_of c) (nodes (sankeyData (pre @ c # post)))
           = Some \<lparr>node_id = i, node_name = rulePayload_of c, node_color = Some ''#91cc75''\<rparr>))"
proof (intro conjI impI ballI)
  show "map node_name (nodes (sankeyData conns)) = first_seen (map fst (encounters conns))"
    by (rule node_names)
  show "distinct (map node_name (nodes (sankeyData conns)))"
    by (simp only: node_names distinct_first_seen)
  show "set (map node_name (nodes (sankeyData conns))) = fst ` set (encounters conns)"
    by (simp only: node_names set_first_seen set_map)
  show "map node_id (nodes (sankeyData conns)) = [0..<length (nodes (sankeyData conns))]"
    by (rule node_ids)
  show "\<exists>l. map_of (encounters conns) (node_name x) = Some l \<and> l < 4 \<and>
          node_color x = Some (layerColors ! l)" if "x \<in> set (nodes (sankeyData conns))" for x
    using that by (rule node_layers)
  show "\<exists>more. nodes (sankeyData (conns @ later)) = nodes (sankeyData conns) @ more"
    by (rule nodes_stable)
  show "\<exists>i. \<forall>post.
         find (\<lambda>x. node_name x = rulePayload_of c) (nodes (sankeyData (pre @ c # post)))
           = Some \<lparr>node_id = i, node_name = rulePayload_of c, node_color = Some ''#91cc75''\<rparr>"
    if "chains c \<noteq> [] \<and> rulePayload_of c \<noteq> sourceIP_of c \<and>
        rulePayload_of c \<notin> fst ` set (encounters pre)"
    using that by (intro rule_label_node) simp_all
qed

lemmas sample_defs = sample_first_def sample_second_def sample_third_def

theorem C5_node_identity_witness:
  "chains sample_first \<noteq> [] \<and>
   rulePayload_of sample_first \<noteq> sourceIP_of sample_first \<and>
   rulePayload_of sample_first \<notin> fst ` set (encounters []) \<and>
   rulePayload_of sample_first = ''Match'' \<and>
   last (chains sample_second) = ''Match'' \<and>
   nodes (sankeyData [sample_first, sample_second])
     = [\<lparr>node_id = 0, node_name = ''10.0.0.1'', node_color = Some ''#5470c6''\<rparr>,
        \<lparr>node_id = 1, node_name = ''Match'', node_color = Some ''#91cc75''\<rparr>,
        \<lparr>node_id = 2, node_name = ''Proxy'', node_color = Some ''#fac858''\<rparr>,
        \<lparr>node_id = 3, node_name = ''HK'', node_color = Some ''#ee6666''\<rparr>,
        \<lparr>node_id = 4, node_name = ''10.0.0.2'', node_color = Some ''#5470c6''\<rparr>,
        \<lparr>node_id = 5, node_name = ''Domain: x.com'', node_color = Some ''#91cc75''\<rparr>] \<and>
   find (\<lambda>x. node_name x = ''Match'') (nodes (sankeyData [sample_first, sample_second]))
     = Some \<lparr>node_id = 1, node_name = ''Match'', node_color = Some ''#91cc75''\<rparr>"
proof -
  have ns: "nodes (sankeyData [sample_first, sample_second])
     = [\<lparr>node_id = 0, node_name = ''10.0.0.1'', node_color = Some ''#5470c6''\<rparr>,
        \<lparr>node_id = 1, node_name = ''Match'', node_color = Some ''#91cc75''\<rparr>,
        \<lparr>node_id = 2, node_name = ''Proxy'', node_color = Some ''#fac858''\<rparr>,
        \<lparr>node_id = 3, node_name = ''HK'', node_color = Some ''#ee6666''\<rparr>,
        \<lparr>node_id = 4, node_name = ''10.0.0.2'', node_color = Some ''#5470c6''\<rparr>,
        \<lparr>node_id = 5, node_name = ''Domain: x.com'', node_color = Some ''#91cc75''\<rparr>]"
    by (simp add: nodes_sankeyData node_of_def encounters_def conn_names_def sourceIP_of_def
        rulePayload_of_def str_or_def array_get_def layerColors_def upt_rec sample_defs)
  have hyp: "chains sample_first \<noteq> [] \<and>
     rulePayload_of sample_first \<noteq> sourceIP_of sample_first \<and>
     rulePayload_of sample_first \<notin> fst ` set (encounters [])"
    by (simp add: encounters_def sourceIP_of_def rulePayload_of_def str_or_def sample_defs)
  have nm: "rulePayload_of sample_first = ''Match''" "last (chains sample_second) = ''Match''"
    by (simp_all add: rulePayload_of_def sample_defs)
  from C5_node_identity [of "[sample_first, sample_second]" "[]" sample_first "[]"] hyp
  obtain i where "\<forall>post. find (\<lambda>x. node_name x = rulePayload_of sample_first)
        (nodes (sankeyData ([] @ sample_first # post)))
      = Some \<lparr>node_id = i, node_name = rulePayload_of sample_first,
              node_color = Some ''#91cc75''\<rparr>"
    by blast
  then have "find (\<lambda>x. node_name x = rulePayload_of sample_first)
        (nodes (sankeyData ([] @ sample_first # [sample_second])))
      = Some \<lparr>node_id = i, node_name = rulePayload_of sample_first,
              node_color = Some ''#91cc75''\<rparr>"
    by (rule spec)
  then have "find (\<lambda>x. node_name x = ''Match'') (nodes (sankeyData [sample_first, sample_second]))
      = Some \<lparr>node_id = i, node_name = ''Match'', node_color = Some ''#91cc75''\<rparr>"
    by (simp only: nm append_Nil)
  moreover have "find (\<lambda>x. node_name x = ''Match'') (nodes (sankeyData [sample_first, sample_second]))
      = Some \<lparr>node_id = 1, node_name = ''Match'', node_color = Some ''#91cc75''\<rparr>"
    by (simp add: ns)
  ultimately show ?thesis
    using hyp nm ns by simp
qed

lemma counts_Nil: "counts [] []"
  by (simp add: counts_def)

lemma counts_bump:
  assumes "counts m ks"
  shows "counts (AList.update l (get_or_0 m l + 1) m) (ks @ [l])"
proof -
  from assms have d: "distinct (map fst m)"
    and c: "\<And>k. map_of m k = (if count_list ks k = 0 then None else Some (count_list ks k))"
    by (simp_all add: counts_def)
  have g: "get_or_0 m l = count_list ks l"
    by (simp add: get_or_0_map_of c)
  have "map_of (AList.update l (get_or_0 m l + 1) m) k
          = (if count_list (ks @ [l]) k = 0 then None else Some (count_list (ks @ [l]) k))" for k
    by (simp add: AList.update_conv' g c)
  moreover have "distinct (map fst (AList.update l (get_or_0 m l + 1) m))"
    using d by (rule AList.distinct_update)
  ultimately show ?thesis by (simp only: counts_def) blast
qed

lemma linkMap_bumpLink:
  "linkMap (bumpLink l s) = AList.update l (get_or_0 (linkMap s) l + 1) (linkMap s)"
  by (simp add: bumpLink_def)

lemma counts_bumpLink:
  "counts (linkMap s) ks \<Longrightarrow> counts (linkMap (bumpLink l s)) (ks @ [l])"
  by (simp only: linkMap_bumpLink counts_bump)

lemma nodeMap_fold_update:
  "nodeMap (fold processConn conns s) = nodeMap (addNodes (encounters conns) s)"
  by (subst fold_processConn_nodes) simp

lemma fold_processConn_mono:
  "map_of (nodeMap s) n = Some i \<Longrightarrow> map_of (nodeMap (fold processConn conns s)) n = Some i"
  by (simp only: nodeMap_fold_update addNodes_mono)

lemma registered:
  assumes "n \<in> fst ` set (encounters conns)"
  shows "\<exists>i. map_of (nodeMap (fold processConn conns empty_registry)) n = Some i"
proof -
  have "map fst (nodeMap (fold processConn conns empty_registry))
          = first_seen (map fst (encounters conns))"
    by (simp add: registry_after)
  then have "n \<in> fst ` set (nodeMap (fold processConn conns empty_registry))"
    using assms by (metis set_first_seen set_map)
  then show ?thesis
    by (metis map_of_eq_None_iff not_Some_eq)
qed

lemma conn_names_in_encounters:
  assumes "c \<in> set conns" "chains c \<noteq> []"
  shows "sourceIP_of c \<in> fst ` set (encounters conns)"
    and "rulePayload_of c \<in> fst ` set (encounters conns)"
    and "last (chains c) \<in> fst ` set (encounters conns)"
    and "hd (chains c) \<in> fst ` set (encounters conns)"
  using assms by (force simp: encounters_def conn_names_def)+

lemma idx_stable:
  assumes "n \<in> fst ` set (encounters conns)"
  shows "idx (fold processConn ds (fold processConn conns empty_registry)) n
           = idx (fold processConn conns empty_registry) n"
proof -
  from registered [OF assms] obtain i
    where i: "map_of (nodeMap (fold processConn conns empty_registry)) n = Some i" by blast
  then have "map_of (nodeMap (fold processConn ds (fold processConn conns empty_registry))) n
               = Some i"
    by (rule fold_processConn_mono)
  with i show ?thesis by (simp add: idx_def)
qed

lemma edges_at_stable:
  assumes "c \<in> set conns"
  shows "edges_at (fold processConn ds (fold processConn conns empty_registry)) c
           = edges_at (fold processConn conns empty_registry) c"
proof (cases "chains c = []")
  case True
  then show ?thesis by (simp add: edges_at_def)
next
  case False
  from conn_names_in_encounters [OF assms False] show ?thesis
    by (simp add: edges_at_def idx_stable)
qed

lemma processConn_links:
  assumes "counts (linkMap s) ks"
  shows "counts (linkMap (processConn c s)) (ks @ map key_of (edges_at (processConn c s) c))"
proof (cases "chains c = []")
  case True
  with assms show ?thesis by (simp add: processConn_no_chain edges_at_def)
next
  case False
  let ?s4 = "addNodes (conn_names c) s"
  let ?k1 = "link_key (idx ?s4 (sourceIP_of c)) (idx ?s4 (rulePayload_of c))"
  let ?k2 = "link_key (idx ?s4 (rulePayload_of c)) (idx ?s4 (last (chains c)))"
  let ?k3 = "link_key (idx ?s4 (last (chains c))) (idx ?s4 (hd (chains c)))"
  have pc: "processConn c s = bumpLink ?k3 (bumpLink ?k2 (bumpLink ?k1 ?s4))"
    using False by (simp add: processConn_chain Let_def)
  have ix: "idx (processConn c s) = idx ?s4"
    by (simp only: pc idx_bumpLink)
  have ks: "map key_of (edges_at (processConn c s) c) = [?k1, ?k2, ?k3]"
    using False by (simp add: edges_at_def ix key_of_def)
  have "counts (linkMap ?s4) ks"
    using assms by (simp only: addNodes_linkMap)
  then have "counts (linkMap (bumpLink ?k1 ?s4)) (ks @ [?k1])"
    by (rule counts_bumpLink)
  then have "counts (linkMap (bumpLink ?k2 (bumpLink ?k1 ?s4))) ((ks @ [?k1]) @ [?k2])"
    by (rule counts_bumpLink)
  then have "counts (linkMap (bumpLink ?k3 (bumpLink ?k2 (bumpLink ?k1 ?s4))))
               (((ks @ [?k1]) @ [?k2]) @ [?k3])"
    by (rule counts_bumpLink)
  then show ?thesis
    by (simp only: pc [symmetric] ks) simp
qed

lemma links_after:
  "counts (linkMap (fold processConn conns empty_registry))
     (map key_of (concat (map (edges_at (fold processConn conns empty_registry)) conns)))"
proof (induction conns rule: rev_induct)
  case Nil
  show ?case by (simp add: empty_registry_def counts_Nil)
next
  case (snoc c conns)
  let ?s = "fold processConn conns empty_registry"
  let ?s' = "fold processConn (conns @ [c]) empty_registry"
  have s': "?s' = processConn c ?s" by simp
  have "edges_at ?s' d = edges_at ?s d" if "d \<in> set conns" for d
    using edges_at_stable [OF that, of "[c]"] by simp
  then have old: "map (edges_at ?s') conns = map (edges_at ?s) conns"
    by (intro map_cong [OF refl])
  from snoc have "counts (linkMap (processConn c ?s))
      (map key_of (concat (map (edges_at ?s) conns)) @ map key_of (edges_at (processConn c ?s) c))"
    by (rule processConn_links)
  then show ?case
    by (simp only: s' [symmetric])
      (simp only: map_append concat_append list.map concat.simps append_Nil2 old)
qed

lemma find_node_of:
  "map_option node_id (find (\<lambda>x. node_name x = n) (map (node_of conns) ps)) = map_of ps n"
  by (induction ps) (auto simp: node_of_def)

lemma id_of_sankeyData:
  "id_of (sankeyData conns) n = map_of (nodeMap (fold processConn conns empty_registry)) n"
  by (simp only: id_of_def nodes_sankeyData find_node_of registry_after)

lemma id_of_registered:
  assumes "n \<in> fst ` set (encounters conns)"
  shows "id_of (sankeyData conns) n = Some (idx (fold processConn conns empty_registry) n)"
proof -
  from registered [OF assms] obtain i
    where "map_of (nodeMap (fold processConn conns empty_registry)) n = Some i" by blast
  then show ?thesis by (simp add: id_of_sankeyData idx_def)
qed

lemma conn_edges_sankeyData:
  assumes "c \<in> set conns"
  shows "conn_edges (sankeyData conns) c
           = map opt_pair (edges_at (fold processConn conns empty_registry) c)"
proof (cases "chains c = []")
  case True
  then show ?thesis by (simp add: conn_edges_def edges_at_def)
next
  case False
  from conn_names_in_encounters [OF assms False] show ?thesis
    using False by (simp add: conn_edges_def edges_at_def id_of_registered opt_pair_def)
qed

lemma edge_occurrences_edges_at:
  "edge_occurrences conns
     = map opt_pair (concat (map (edges_at (fold processConn conns empty_registry)) conns))"
proof -
  have eq: "map (conn_edges (sankeyData conns)) conns
          = map (\<lambda>c. map opt_pair (edges_at (fold processConn conns empty_registry) c)) conns"
    by (rule map_cong [OF refl]) (rule conn_edges_sankeyData)
  show ?thesis
    unfolding edge_occurrences_def eq by (simp add: map_concat comp_def)
qed

lemma links_sankeyData:
  "links (sankeyData conns) = map mk_link (linkMap (fold processConn conns empty_registry))"
  by (cases "conns = []") (simp_all add: sankeyData_def Let_def empty_registry_def)

lemma key_of_inject: "key_of p = key_of q \<longleftrightarrow> p = q"
  by (simp add: key_of_def link_key_inject prod_eq_iff)

lemma opt_pair_inject: "opt_pair p = opt_pair q \<longleftrightarrow> p = q"
  by (simp add: opt_pair_def prod_eq_iff)

lemma count_list_map_inj:
  assumes "\<And>x y. f x = f y \<longleftrightarrow> x = y"
  shows "count_list (map f xs) (f x) = count_list xs x"
  by (induction xs) (simp_all add: assms)

lemma count_list_0_iff: "count_list xs x = 0 \<longleftrightarrow> x \<notin> set xs"
  by (induction xs) auto

lemma link_pair_mk_link: "link_pair (mk_link (key_of p, v)) = opt_pair p"
  by (simp add: key_of_def parse_link_key link_pair_def opt_pair_def)

lemma link_value_mk_link: "link_value (mk_link (k, v)) = v"
  by (simp add: mk_link_def Let_def)

text \<open>A link map all of whose keys are keys of pairs of ids.\<close>

lemma find_by_pair:
  assumes "\<forall>e\<in>set m. \<exists>p. fst e = key_of p"
  shows "map_option link_value (find (\<lambda>l. link_pair l = opt_pair p) (map mk_link m))
           = map_of m (key_of p)"
  using assms
proof (induction m)
  case Nil
  show ?case by simp
next
  case (Cons e m)
  obtain k v where e: "e = (k, v)" by (cases e)
  from Cons.prems obtain q where k: "k = key_of q" by (auto simp: e)
  from Cons have IH: "map_option link_value (find (\<lambda>l. link_pair l = opt_pair p) (map mk_link m))
           = map_of m (key_of p)" by simp
  show ?case
  proof (cases "q = p")
    case True
    then show ?thesis
      by (simp add: e k link_pair_mk_link link_value_mk_link)
  next
    case False
    then show ?thesis
      using IH by (simp add: e k link_pair_mk_link opt_pair_inject key_of_inject)
  qed
qed

lemma find_not_pair:
  assumes "\<forall>e\<in>set m. \<exists>p. fst e = key_of p" "\<And>p. q \<noteq> opt_pair p"
  shows "find (\<lambda>l. link_pair l = q) (map mk_link m) = None"
proof -
  have "link_pair (mk_link e) \<noteq> q" if "e \<in> set m" for e
  proof -
    from assms(1) that obtain p where "fst e = key_of p" by blast
    then have "e = (key_of p, snd e)" by (cases e) simp
    then have "link_pair (mk_link e) = opt_pair p"
      by (metis link_pair_mk_link)
    with assms(2) show ?thesis by metis
  qed
  then show ?thesis by (simp add: find_None_iff)
qed

lemma counts_keys:
  assumes "counts m (map key_of es)" "e \<in> set m"
  shows "\<exists>p\<in>set es. fst e = key_of p \<and> snd e = count_list es p"
proof -
  obtain k v where e: "e = (k, v)" by (cases e)
  from assms(1) have d: "distinct (map fst m)"
    and c: "\<And>k. map_of m k = (if count_list (map key_of es) k = 0 then None
                                 else Some (count_list (map key_of es) k))"
    by (simp_all add: counts_def)
  from d assms(2) have "map_of m k = Some v" by (simp add: e)
  with c [of k] have nz: "count_list (map key_of es) k \<noteq> 0"
    and v: "v = count_list (map key_of es) k"
    by (auto split: if_splits)
  from nz have "k \<in> set (map key_of es)" by (simp add: count_list_0_iff)
  then obtain p where p: "p \<in> set es" "k = key_of p" by auto
  have "count_list (map key_of es) (key_of p) = count_list es p"
    by (rule count_list_map_inj) (rule key_of_inject)
  with p v show ?thesis by (auto simp: e)
qed

lemma weight_of_sankeyData:
  "weight_of (sankeyData conns) q =
     (if count_list (edge_occurrences conns) q = 0 then None
      else Some (count_list (edge_occurrences conns) q))"
proof -
  let ?s = "fold processConn conns empty_registry"
  let ?E = "concat (map (edges_at ?s) conns)"
  have cm: "counts (linkMap ?s) (map key_of ?E)" by (rule links_after)
  then have keys: "\<forall>e\<in>set (linkMap ?s). \<exists>p. fst e = key_of p"
    using counts_keys by blast
  show ?thesis
  proof (cases "\<exists>p. q = opt_pair p")
    case True
    then obtain p where q: "q = opt_pair p" by blast
    have "weight_of (sankeyData conns) q = map_of (linkMap ?s) (key_of p)"
      using keys by (simp only: weight_of_def links_sankeyData q find_by_pair)
    also have "\<dots> = (if count_list (map key_of ?E) (key_of p) = 0 then None
                       else Some (count_list (map key_of ?E) (key_of p)))"
      using cm by (simp add: counts_def)
    also have "count_list (map key_of ?E) (key_of p) = count_list ?E p"
      by (rule count_list_map_inj) (rule key_of_inject)
    also have "count_list ?E p = count_list (map opt_pair ?E) (opt_pair p)"
      by (rule count_list_map_inj [symmetric]) (rule opt_pair_inject)
    finally show ?thesis
      by (simp only: edge_occurrences_edges_at q)
  next
    case False
    then have nq: "\<And>p. q \<noteq> opt_pair p" by blast
    have "find (\<lambda>l. link_pair l = q) (map mk_link (linkMap ?s)) = None"
      using keys nq by (rule find_not_pair)
    then have "weight_of (sankeyData conns) q = None"
      by (simp add: weight_of_def links_sankeyData)
    moreover have "q \<notin> set (edge_occurrences conns)"
      using nq by (auto simp: edge_occurrences_edges_at)
    ultimately show ?thesis by (simp add: count_list_0_iff)
  qed
qed

lemma link_in_graph:
  assumes "l \<in> set (links (sankeyData conns))"
  shows "link_pair l \<in> set (edge_occurrences conns) \<and>
         link_value l = count_list (edge_occurrences conns) (link_pair l)"
proof -
  let ?s = "fold processConn conns empty_registry"
  let ?E = "concat (map (edges_at ?s) conns)"
  from assms obtain e where e: "e \<in> set (linkMap ?s)" "l = mk_link e"
    by (auto simp: links_sankeyData)
  from counts_keys [OF links_after e(1)] obtain p
    where p: "p \<in> set ?E" "fst e = key_of p" "snd e = count_list ?E p" by blast
  then have ee: "e = (key_of p, count_list ?E p)" by (cases e) simp
  have "count_list ?E p = count_list (map opt_pair ?E) (opt_pair p)"
    by (rule count_list_map_inj [symmetric]) (rule opt_pair_inject)
  then show ?thesis
    using p(1) by (simp add: e(2) ee link_pair_mk_link link_value_mk_link
        edge_occurrences_edges_at)
qed

lemma links_distinct: "distinct (map link_pair (links (sankeyData conns)))"
proof -
  let ?s = "fold processConn conns empty_registry"
  let ?E = "concat (map (edges_at ?s) conns)"
  have cm: "counts (linkMap ?s) (map key_of ?E)" by (rule links_after)
  then have d: "distinct (map fst (linkMap ?s))" by (simp add: counts_def)
  have "inj_on (\<lambda>e. link_pair (mk_link e)) (set (linkMap ?s))"
  proof (rule inj_onI)
    fix e e' assume e: "e \<in> set (linkMap ?s)" and e': "e' \<in> set (linkMap ?s)"
      and eq: "link_pair (mk_link e) = link_pair (mk_link e')"
    from counts_keys [OF cm e] obtain p where p: "fst e = key_of p" by blast
    from counts_keys [OF cm e'] obtain p' where p': "fst e' = key_of p'" by blast
    have "link_pair (mk_link e) = opt_pair p"
      using p link_pair_mk_link [of p "snd e"] by (cases e) simp
    moreover have "link_pair (mk_link e') = opt_pair p'"
      using p' link_pair_mk_link [of p' "snd e'"] by (cases e') simp
    ultimately have "p = p'" using eq by (simp add: opt_pair_inject)
    with p p' have "fst e = fst e'" by simp
    with d e e' show "e = e'"
      by (metis eq_key_imp_eq_value prod.collapse)
  qed
  moreover have "distinct (linkMap ?s)" using d by (simp add: distinct_map)
  ultimately have "distinct (map (\<lambda>e. link_pair (mk_link e)) (linkMap ?s))"
    by (simp add: distinct_map)
  then show ?thesis by (simp add: links_sankeyData comp_def)
qed

lemma edge_has_link:
  assumes "q \<in> set (edge_occurrences conns)"
  shows "q \<in> link_pair ` set (links (sankeyData conns))"
proof -
  from assms have "count_list (edge_occurrences conns) q \<noteq> 0"
    by (simp add: count_list_0_iff)
  then have "weight_of (sankeyData conns) q \<noteq> None"
    by (simp add: weight_of_sankeyData)
  then obtain l where "find (\<lambda>l. link_pair l = q) (links (sankeyData conns)) = Some l"
    by (auto simp: weight_of_def)
  then have "l \<in> set (links (sankeyData conns))" "link_pair l = q"
    by (auto simp: find_Some_iff)
  then show ?thesis by blast
qed

lemma edge_occurrences_append:
  "edge_occurrences (conns @ ds)
     = edge_occurrences conns @ concat (map (conn_edges (sankeyData (conns @ ds))) ds)"
proof -
  let ?s = "fold processConn conns empty_registry"
  let ?s' = "fold processConn (conns @ ds) empty_registry"
  have s': "?s' = fold processConn ds ?s" by simp
  have "edges_at ?s' d = edges_at ?s d" if "d \<in> set conns" for d
    unfolding s' using that by (rule edges_at_stable)
  then have old: "map (edges_at ?s') conns = map (edges_at ?s) conns"
    by (intro map_cong [OF refl])
  have "conn_edges (sankeyData (conns @ ds)) d = map opt_pair (edges_at ?s' d)" if "d \<in> set ds" for d
    using that by (intro conn_edges_sankeyData) simp
  then have new: "map (conn_edges (sankeyData (conns @ ds))) ds
                    = map (\<lambda>d. map opt_pair (edges_at ?s' d)) ds"
    by (intro map_cong [OF refl])
  have "edge_occurrences (conns @ ds)
          = map opt_pair (concat (map (edges_at ?s') conns))
            @ map opt_pair (concat (map (edges_at ?s') ds))"
    by (simp only: edge_occurrences_edges_at map_append concat_append)
  also have "map opt_pair (concat (map (edges_at ?s') conns)) = edge_occurrences conns"
    by (simp only: old edge_occurrences_edges_at)
  also have "map opt_pair (concat (map (edges_at ?s') ds))
               = concat (map (conn_edges (sankeyData (conns @ ds))) ds)"
    unfolding new by (simp add: map_concat comp_def)
  finally show ?thesis .
qed

lemma weight_unchanged:
  assumes "q \<notin> set (conn_edges (sankeyData (conns @ [c])) c)"
  shows "weight_of (sankeyData (conns @ [c])) q = weight_of (sankeyData conns) q"
proof -
  have "count_list (edge_occurrences (conns @ [c])) q = count_list (edge_occurrences conns) q"
    using assms by (simp add: edge_occurrences_append [of conns "[c]"] count_list_0_iff)
  then show ?thesis by (simp only: weight_of_sankeyData)
qed

lemma weight_two:
  assumes a: "chains a \<noteq> []" and b: "chains b \<noteq> []"
    and same: "sourceIP_of a = sourceIP_of b" "rulePayload_of a = rulePayload_of b"
    and p: "p = (id_of (sankeyData [a, b]) (sourceIP_of a),
                 id_of (sankeyData [a, b]) (rulePayload_of a))"
    and others: "p \<notin> set (tl (conn_edges (sankeyData [a, b]) a))"
      "p \<notin> set (tl (conn_edges (sankeyData [a, b]) b))"
  shows "weight_of (sankeyData [a, b]) p = Some 2"
proof -
  let ?g = "sankeyData [a, b]"
  have ea: "conn_edges ?g a = p # tl (conn_edges ?g a)"
    using a by (simp add: conn_edges_def p)
  have eb: "conn_edges ?g b = p # tl (conn_edges ?g b)"
    using b same by (simp add: conn_edges_def p)
  have "edge_occurrences [a, b] = conn_edges ?g a @ conn_edges ?g b"
    by (simp add: edge_occurrences_def)
  also have "\<dots> = (p # tl (conn_edges ?g a)) @ (p # tl (conn_edges ?g b))"
    using ea eb by simp
  finally have "count_list (edge_occurrences [a, b]) p = 2"
    using others by (simp add: count_list_0_iff)
  then show ?thesis by (simp add: weight_of_sankeyData)
qed

lemmas graph_eval =
  sankeyData_def processConn_def addNode_def bumpLink_def empty_registry_def
  sourceIP_of_def rulePayload_of_def str_or_def get_or_0_def mk_node_def
  array_get_def layerColors_def Let_def link_key_inject parse_link_key

text \<open>
  Claim C4, as stated, fails. Two connections with the source address \<open>A\<close>, the rule
  label \<open>A\<close> and the chain \<open>[A]\<close> produce the same source-to-rule pair, the pair of
  node 0 with itself; their other edges fall on that pair too, and the weight of the
  edge is 6, not 2.
\<close>

theorem C4_edge_weights_counterexample:
  "sourceIP_of \<lparr>metadata = \<lparr>sourceIP = ''A''\<rparr>, rule = ''A'', rulePayload = '''',
                chains = [''A'']\<rparr> = ''A'' \<and>
   rulePayload_of \<lparr>metadata = \<lparr>sourceIP = ''A''\<rparr>, rule = ''A'', rulePayload = '''',
                   chains = [''A'']\<rparr> = ''A'' \<and>
   sankeyData
     [\<lparr>metadata = \<lparr>sourceIP = ''A''\<rparr>, rule = ''A'', rulePayload = '''', chains = [''A'']\<rparr>,
      \<lparr>metadata = \<lparr>sourceIP = ''A''\<rparr>, rule = ''A'', rulePayload = '''', chains = [''A'']\<rparr>]
     = \<lparr>nodes = [\<lparr>node_id = 0, node_name = ''A'', node_color = Some ''#5470c6''\<rparr>],
        links = [\<lparr>link_source = Some 0, link_target = Some 0, link_value = 6\<rparr>]\<rparr>"
  by (simp add: graph_eval)

text \<open>
  Claim C4, amended. The links of the graph connect pairwise different ordered pairs of
  node ids, these pairs are exactly the pairs on which an edge of some connection falls,
  and the weight of a link is the number of edges, three for every connection with a
  non-empty chain, that fall on its pair. So for two connections that produce the same
  source-to-rule pair, none of their other edges falling on that pair, the weight of
  that edge is exactly 2, and a further connection none of whose edges falls on a pair
  leaves the weight of that pair as it is.
\<close>

theorem C4_edge_weights:
  "distinct (map link_pair (links (sankeyData conns))) \<and>
   link_pair ` set (links (sankeyData conns)) = set (edge_occurrences conns) \<and>
   (\<forall>l\<in>set (links (sankeyData conns)).
      link_value l = count_list (edge_occurrences conns) (link_pair l)) \<and>
   weight_of (sankeyData conns) q =
     (if count_list (edge_occurrences conns) q = 0 then None
      else Some (count_list (edge_occurrences conns) q)) \<and>
   (chains c \<noteq> [] \<longrightarrow> length (conn_edges (sankeyData conns) c) = 3) \<and>
   (chains a \<noteq> [] \<and> chains b \<noteq> [] \<and>
    sourceIP_of a = sourceIP_of b \<and> rulePayload_of a = rulePayload_of b \<and>
    p = (id_of (sankeyData [a, b]) (sourceIP_of a), id_of (sankeyData [a, b]) (rulePayload_of a)) \<and>
    p \<notin> set (tl (conn_edges (sankeyData [a, b]) a)) \<and>
    p \<notin> set (tl (conn_edges (sankeyData [a, b]) b)) \<longrightarrow>
      weight_of (sankeyData [a, b]) p = Some 2) \<and>
   (q \<notin> set (conn_edges (sankeyData (conns @ [third])) third) \<longrightarrow>
      weight_of (sankeyData (conns @ [third])) q = weight_of (sankeyData conns) q)"
proof (intro conjI impI ballI)
  show "distinct (map link_pair (links (sankeyData conns)))"
    by (rule links_distinct)
  show "link_pair ` set (links (sankeyData conns)) = set (edge_occurrences conns)"
    using link_in_graph edge_has_link by blast
  show "link_value l = count_list (edge_occurrences conns) (link_pair l)"
    if "l \<in> set (links (sankeyData conns))" for l
    using link_in_graph [OF that] by simp
  show "weight_of (sankeyData conns) q =
     (if count_list (edge_occurrences conns) q = 0 then None
      else Some (count_list (edge_occurrences conns) q))"
    by (rule weight_of_sankeyData)
  show "length (conn_edges (sankeyData conns) c) = 3" if "chains c \<noteq> []"
    using that by (simp add: conn_edges_def)
  show "weight_of (sankeyData [a, b]) p = Some 2"
    if "chains a \<noteq> [] \<and> chains b \<noteq> [] \<and>
    sourceIP_of a = sourceIP_of b \<and> rulePayload_of a = rulePayload_of b \<and>
    p = (id_of (sankeyData [a, b]) (sourceIP_of a), id_of (sankeyData [a, b]) (rulePayload_of a)) \<and>
    p \<notin> set (tl (conn_edges (sankeyData [a, b]) a)) \<and>
    p \<notin> set (tl (conn_edges (sankeyData [a, b]) b))"
  proof -
    from that have h: "chains a \<noteq> []" "chains b \<noteq> []"
      "sourceIP_of a = sourceIP_of b" "rulePayload_of a = rulePayload_of b"
      "p = (id_of (sankeyData [a, b]) (sourceIP_of a),
            id_of (sankeyData [a, b]) (rulePayload_of a))"
      "p \<notin> set (tl (conn_edges (sankeyData [a, b]) a))"
      "p \<notin> set (tl (conn_edges (sankeyData [a, b]) b))"
      by blast+
    then show ?thesis by (rule weight_two)
  qed
  show "weight_of (sankeyData (conns @ [third])) q = weight_of (sankeyData conns) q"
    if "q \<notin> set (conn_edges (sankeyData (conns @ [third])) third)"
    using that by (rule weight_unchanged)
qed

theorem C4_edge_weights_witness:
  "chains sample_first \<noteq> [] \<and> chains sample_third \<noteq> [] \<and>
   sourceIP_of sample_first = sourceIP_of sample_third \<and>
   rulePayload_of sample_first = rulePayload_of sample_third \<and>
   links (sankeyData [sample_first, sample_third])
     = [\<lparr>link_source = Some 0, link_target = Some 1, link_value = 2\<rparr>,
        \<lparr>link_source = Some 1, link_target = Some 2, link_value = 2\<rparr>,
        \<lparr>link_source = Some 2, link_target = Some 3, link_value = 1\<rparr>,
        \<lparr>link_source = Some 2, link_target = Some 4, link_value = 1\<rparr>] \<and>
   weight_of (sankeyData [sample_first, sample_third]) (Some 0, Some 1) = Some 2 \<and>
   weight_of (sankeyData ([sample_first, sample_third] @ [sample_second])) (Some 0, Some 1)
     = Some 2"
proof -
  let ?g = "sankeyData [sample_first, sample_third]"
  let ?g' = "sankeyData ([sample_first, sample_third] @ [sample_second])"
  have g: "?g =
      \<lparr>nodes = [\<lparr>node_id = 0, node_name = ''10.0.0.1'', node_color = Some ''#5470c6''\<rparr>,
                \<lparr>node_id = 1, node_name = ''Match'', node_color = Some ''#91cc75''\<rparr>,
                \<lparr>node_id = 2, node_name = ''Proxy'', node_color = Some ''#fac858''\<rparr>,
                \<lparr>node_id = 3, node_name = ''HK'', node_color = Some ''#ee6666''\<rparr>,
                \<lparr>node_id = 4, node_name = ''JP'', node_color = Some ''#ee6666''\<rparr>],
       links = [\<lparr>link_source = Some 0, link_target = Some 1, link_value = 2\<rparr>,
                \<lparr>link_source = Some 1, link_target = Some 2, link_value = 2\<rparr>,
                \<lparr>link_source = Some 2, link_target = Some 3, link_value = 1\<rparr>,
                \<lparr>link_source = Some 2, link_target = Some 4, link_value = 1\<rparr>]\<rparr>"
    by (simp add: graph_eval sample_first_def sample_third_def)
  have n': "nodes (sankeyData [sample_first, sample_third, sample_second]) =
       [\<lparr>node_id = 0, node_name = ''10.0.0.1'', node_color = Some ''#5470c6''\<rparr>,
        \<lparr>node_id = 1, node_name = ''Match'', node_color = Some ''#91cc75''\<rparr>,
        \<lparr>node_id = 2, node_name = ''Proxy'', node_color = Some ''#fac858''\<rparr>,
        \<lparr>node_id = 3, node_name = ''HK'', node_color = Some ''#ee6666''\<rparr>,
        \<lparr>node_id = 4, node_name = ''JP'', node_color = Some ''#ee6666''\<rparr>,
        \<lparr>node_id = 5, node_name = ''10.0.0.2'', node_color = Some ''#5470c6''\<rparr>,
        \<lparr>node_id = 6, node_name = ''Domain: x.com'', node_color = Some ''#91cc75''\<rparr>]"
    by (simp add: nodes_sankeyData node_of_def encounters_def conn_names_def sourceIP_of_def
        rulePayload_of_def str_or_def array_get_def layerColors_def upt_rec
        sample_first_def sample_second_def sample_third_def)
  have h1: "chains sample_first \<noteq> []" "chains sample_third \<noteq> []"
    "sourceIP_of sample_first = sourceIP_of sample_third"
    "rulePayload_of sample_first = rulePayload_of sample_third"
    by (simp_all add: sample_first_def sample_third_def sourceIP_of_def rulePayload_of_def)
  have nm: "sourceIP_of sample_first = ''10.0.0.1''" "rulePayload_of sample_first = ''Match''"
    "last (chains sample_first) = ''Proxy''" "hd (chains sample_first) = ''HK''"
    "sourceIP_of sample_third = ''10.0.0.1''" "rulePayload_of sample_third = ''Match''"
    "last (chains sample_third) = ''Proxy''" "hd (chains sample_third) = ''JP''"
    "sourceIP_of sample_second = ''10.0.0.2''" "rulePayload_of sample_second = ''Domain: x.com''"
    "last (chains sample_second) = ''Match''" "hd (chains sample_second) = ''Match''"
    "chains sample_second \<noteq> []"
    by (simp_all add: sample_first_def sample_second_def sample_third_def sourceIP_of_def
        rulePayload_of_def str_or_def)
  have h2: "(Some 0, Some 1) = (id_of ?g (sourceIP_of sample_first),
                               id_of ?g (rulePayload_of sample_first))"
    by (simp add: id_of_def g nm)
  have h3: "(Some 0, Some 1) \<notin> set (tl (conn_edges ?g sample_first))"
    "(Some 0, Some 1) \<notin> set (tl (conn_edges ?g sample_third))"
    using h1 by (simp_all add: conn_edges_def id_of_def g nm)
  have h4: "(Some 0, Some 1) \<notin> set (conn_edges ?g' sample_second)"
    by (simp add: conn_edges_def id_of_def n' nm)
  note inst = C4_edge_weights
    [where conns = "[sample_first, sample_third]" and q = "(Some 0, Some 1)"
       and a = sample_first and b = sample_third and p = "(Some 0, Some 1)"
       and third = sample_second]
  from inst h1 h2 h3 have two: "weight_of ?g (Some 0, Some 1) = Some 2" by blast
  from inst h4 have "weight_of ?g' (Some 0, Some 1) = weight_of ?g (Some 0, Some 1)" by blast
  with two have three: "weight_of ?g' (Some 0, Some 1) = Some 2" by simp
  have "links ?g
     = [\<lparr>link_source = Some 0, link_target = Some 1, link_value = 2\<rparr>,
        \<lparr>link_source = Some 1, link_target = Some 2, link_value = 2\<rparr>,
        \<lparr>link_source = Some 2, link_target = Some 3, link_value = 1\<rparr>,
        \<lparr>link_source = Some 2, link_target = Some 4, link_value = 1\<rparr>]"
    by (simp add: g)
  with h1 two three show ?thesis by blast
qed

lemma idx_name:
  assumes "n \<in> fst ` set (encounters conns)"
  shows "first_seen (map fst (encounters conns)) ! idx (fold processConn conns empty_registry) n = n"
proof -
  let ?K = "first_seen (map fst (encounters conns))"
  from registered [OF assms] obtain i
    where i: "map_of (nodeMap (fold processConn conns empty_registry)) n = Some i" by blast
  then have "(n, i) \<in> set (zip ?K [0..<length ?K])"
    by (simp only: registry_after) (rule map_of_SomeD)
  then obtain j where "?K ! j = n" "[0..<length ?K] ! j = i" "j < length ?K"
    by (auto simp: in_set_zip)
  then have "?K ! i = n" by simp
  with i show ?thesis by (simp add: idx_def)
qed

lemma idx_inj:
  assumes "a \<in> fst ` set (encounters conns)" "b \<in> fst ` set (encounters conns)"
  shows "idx (fold processConn conns empty_registry) a = idx (fold processConn conns empty_registry) b
           \<longleftrightarrow> a = b"
  using idx_name [OF assms(1)] idx_name [OF assms(2)] by metis

lemma count_loops_conn:
  assumes d: "d \<in> set conns" and h: "h \<in> fst ` set (encounters conns)"
  shows "count_list (edges_at (fold processConn conns empty_registry) d)
           (idx (fold processConn conns empty_registry) h, idx (fold processConn conns empty_registry) h)
         = (if loops_at h d then 1 else 0) + (if rule_loops_at h d then 1 else 0)
           + (if source_loops_at h d then 1 else 0)"
proof (cases "chains d = []")
  case True
  then show ?thesis
    by (simp add: edges_at_def loops_at_def rule_loops_at_def source_loops_at_def)
next
  case False
  note n = conn_names_in_encounters [OF d False]
  have eq: "idx (fold processConn conns empty_registry) (sourceIP_of d)
              = idx (fold processConn conns empty_registry) h \<longleftrightarrow> sourceIP_of d = h"
    "idx (fold processConn conns empty_registry) (rulePayload_of d)
              = idx (fold processConn conns empty_registry) h \<longleftrightarrow> rulePayload_of d = h"
    "idx (fold processConn conns empty_registry) (last (chains d))
              = idx (fold processConn conns empty_registry) h \<longleftrightarrow> last (chains d) = h"
    "idx (fold processConn conns empty_registry) (hd (chains d))
              = idx (fold processConn conns empty_registry) h \<longleftrightarrow> hd (chains d) = h"
    using n h by (simp_all add: idx_inj)
  show ?thesis
    using False
    by (simp add: edges_at_def loops_at_def rule_loops_at_def source_loops_at_def eq)
qed

lemma count_list_concat:
  "count_list (concat xss) x = sum_list (map (\<lambda>xs. count_list xs x) xss)"
  by (induction xss) simp_all

lemma sum_list_indicator: "sum_list (map (\<lambda>x. if P x then 1 else 0) xs) = length (filter P xs)"
  by (induction xs) simp_all

lemma count_loops:
  assumes h: "h \<in> fst ` set (encounters conns)"
  shows "count_list (edge_occurrences conns) (id_of (sankeyData conns) h, id_of (sankeyData conns) h)
         = length (filter (loops_at h) conns) + length (filter (rule_loops_at h) conns)
           + length (filter (source_loops_at h) conns)"
proof -
  let ?s = "fold processConn conns empty_registry"
  have idh: "id_of (sankeyData conns) h = Some (idx ?s h)"
    using h by (rule id_of_registered)
  have "count_list (edge_occurrences conns) (opt_pair (idx ?s h, idx ?s h))
          = count_list (concat (map (edges_at ?s) conns)) (idx ?s h, idx ?s h)"
    unfolding edge_occurrences_edges_at
    by (rule count_list_map_inj) (rule opt_pair_inject)
  also have "\<dots> = sum_list (map (\<lambda>d. count_list (edges_at ?s d) (idx ?s h, idx ?s h)) conns)"
    by (simp add: count_list_concat comp_def)
  also have "\<dots> = sum_list (map (\<lambda>d. (if loops_at h d then 1 else 0)
                       + (if rule_loops_at h d then 1 else 0)
                       + (if source_loops_at h d then 1 else 0)) conns)"
    by (rule arg_cong [where f = sum_list], rule map_cong [OF refl], rule count_loops_conn [OF _ h])
  also have "\<dots> = length (filter (loops_at h) conns) + length (filter (rule_loops_at h) conns)
           + length (filter (source_loops_at h) conns)"
    by (simp add: sum_list_addf sum_list_indicator)
  finally show ?thesis by (simp add: idh opt_pair_def)
qed

lemma length_filter_mono:
  "(\<And>x. x \<in> set xs \<Longrightarrow> P x \<Longrightarrow> Q x) \<Longrightarrow> length (filter P xs) \<le> length (filter Q xs)"
  by (induction xs) auto

lemma single_hop_loops: "chains d = [h] \<Longrightarrow> loops_at h d"
  by (simp add: loops_at_def)

lemma self_loop:
  assumes c: "c \<in> set conns" and ch: "chains c = [h]"
  shows "\<exists>i. id_of (sankeyData conns) h = Some i \<and>
             conn_edges (sankeyData conns) c ! 2 = (Some i, Some i) \<and>
             weight_of (sankeyData conns) (Some i, Some i) = Some (loop_occurrences h conns) \<and>
             (\<exists>l\<in>set (links (sankeyData conns)).
                 link_source l = Some i \<and> link_target l = Some i \<and>
                 link_value l = loop_occurrences h conns)"
proof -
  let ?g = "sankeyData conns"
  let ?s = "fold processConn conns empty_registry"
  from ch have ne: "chains c \<noteq> []" by simp
  from conn_names_in_encounters(3) [OF c ne] ch
  have h: "h \<in> fst ` set (encounters conns)" by simp
  then have idh: "id_of ?g h = Some (idx ?s h)" by (rule id_of_registered)
  have third: "conn_edges ?g c ! 2 = (Some (idx ?s h), Some (idx ?s h))"
    using ch idh by (simp add: conn_edges_def)
  have cnt: "count_list (edge_occurrences conns) (Some (idx ?s h), Some (idx ?s h))
               = loop_occurrences h conns"
    using count_loops [OF h] by (simp add: idh loop_occurrences_def)
  have "loops_at h c" using ch by (rule single_hop_loops)
  with c have "filter (loops_at h) conns \<noteq> []"
    by (auto simp: filter_empty_conv)
  then have pos: "loop_occurrences h conns \<noteq> 0"
    by (simp add: loop_occurrences_def)
  have w: "weight_of ?g (Some (idx ?s h), Some (idx ?s h)) = Some (loop_occurrences h conns)"
    using pos by (simp add: weight_of_sankeyData cnt)
  then obtain l where "find (\<lambda>l. link_pair l = (Some (idx ?s h), Some (idx ?s h))) (links ?g) = Some l"
    and v: "link_value l = loop_occurrences h conns"
    by (auto simp: weight_of_def)
  then have "l \<in> set (links ?g)" "link_pair l = (Some (idx ?s h), Some (idx ?s h))"
    by (auto simp: find_Some_iff)
  then have "\<exists>l\<in>set (links ?g). link_source l = Some (idx ?s h) \<and>
      link_target l = Some (idx ?s h) \<and> link_value l = loop_occurrences h conns"
    using v by (auto simp: link_pair_def)
  with idh third w show ?thesis by blast
qed

lemma loop_occurrences_single:
  assumes "\<forall>d\<in>set conns. \<not> rule_loops_at h d \<and> \<not> source_loops_at h d"
    and "\<forall>d\<in>set conns. loops_at h d \<longrightarrow> chains d = [h]"
  shows "loop_occurrences h conns = length (filter (\<lambda>d. chains d = [h]) conns)"
proof -
  have "filter (rule_loops_at h) conns = []" "filter (source_loops_at h) conns = []"
    using assms(1) by (simp_all add: filter_empty_conv)
  moreover have "filter (loops_at h) conns = filter (\<lambda>d. chains d = [h]) conns"
    using assms(2) single_hop_loops by (intro filter_cong [OF refl]) blast
  ultimately show ?thesis by (simp add: loop_occurrences_def)
qed

text \<open>
  Claim C10, as stated, fails. One connection with the rule label \<open>Match\<close> and the
  chain \<open>[Match]\<close> has a chain of exactly one element. Its third edge is the self-loop
  at node 1, and so is its second edge: the weight of the self-loop is 2, with one such
  connection in the input.
\<close>

theorem C10_self_loop_counterexample:
  "chains \<lparr>metadata = \<lparr>sourceIP = ''10.0.0.1''\<rparr>, rule = ''Match'', rulePayload = '''',
           chains = [''Match'']\<rparr> = [''Match''] \<and>
   length (filter (\<lambda>d. chains d = [''Match''])
     [\<lparr>metadata = \<lparr>sourceIP = ''10.0.0.1''\<rparr>, rule = ''Match'', rulePayload = '''',
       chains = [''Match'']\<rparr>]) = 1 \<and>
   sankeyData
     [\<lparr>metadata = \<lparr>sourceIP = ''10.0.0.1''\<rparr>, rule = ''Match'', rulePayload = '''',
       chains = [''Match'']\<rparr>]
     = \<lparr>nodes = [\<lparr>node_id = 0, node_name = ''10.0.0.1'', node_color = Some ''#5470c6''\<rparr>,
                 \<lparr>node_id = 1, node_name = ''Match'', node_color = Some ''#91cc75''\<rparr>],
        links = [\<lparr>link_source = Some 0, link_target = Some 1, link_value = 1\<rparr>,
                 \<lparr>link_source = Some 1, link_target = Some 1, link_value = 2\<rparr>]\<rparr>"
  by (simp add: graph_eval)

text \<open>
  Claim C10, amended. For a connection of the input whose chain is just \<open>[h]\<close>, the
  third edge is a self-loop, from the node of \<open>h\<close> to itself, and the graph has a link
  for it. Its weight is the number of edges of the input that fall on that pair: the
  connections whose chain begins and ends with \<open>h\<close>, among them every connection with
  the chain \<open>[h]\<close>, plus those whose rule label and last chain element are \<open>h\<close>, plus
  those whose source address and rule label are \<open>h\<close>. When no connection is of the last
  two kinds and every chain that begins and ends with \<open>h\<close> is \<open>[h]\<close>, the weight is the
  number of connections with the chain \<open>[h]\<close>.
\<close>

theorem C10_self_loop:
  "(c \<in> set conns \<and> chains c = [h] \<longrightarrow>
      (\<exists>i. id_of (sankeyData conns) h = Some i \<and>
           conn_edges (sankeyData conns) c ! 2 = (Some i, Some i) \<and>
           weight_of (sankeyData conns) (Some i, Some i) = Some (loop_occurrences h conns) \<and>
           (\<exists>l\<in>set (links (sankeyData conns)).
               link_source l = Some i \<and> link_target l = Some i \<and>
               link_value l = loop_occurrences h conns)) \<and>
      1 \<le> length (filter (\<lambda>d. chains d = [h]) conns)) \<and>
   loop_occurrences h conns =
     length (filter (loops_at h) conns) + length (filter (rule_loops_at h) conns)
       + length (filter (source_loops_at h) conns) \<and>
   length (filter (\<lambda>d. chains d = [h]) conns) \<le> length (filter (loops_at h) conns) \<and>
   ((\<forall>d\<in>set conns. \<not> rule_loops_at h d \<and> \<not> source_loops_at h d) \<and>
    (\<forall>d\<in>set conns. loops_at h d \<longrightarrow> chains d = [h]) \<longrightarrow>
      loop_occurrences h conns = length (filter (\<lambda>d. chains d = [h]) conns))"
proof (intro conjI impI)
  assume a: "c \<in> set conns \<and> chains c = [h]"
  then show "\<exists>i. id_of (sankeyData conns) h = Some i \<and>
           conn_edges (sankeyData conns) c ! 2 = (Some i, Some i) \<and>
           weight_of (sankeyData conns) (Some i, Some i) = Some (loop_occurrences h conns) \<and>
           (\<exists>l\<in>set (links (sankeyData conns)).
               link_source l = Some i \<and> link_target l = Some i \<and>
               link_value l = loop_occurrences h conns)"
    by (intro self_loop) simp_all
  from a have "filter (\<lambda>d. chains d = [h]) conns \<noteq> []"
    by (auto simp: filter_empty_conv)
  then show "1 \<le> length (filter (\<lambda>d. chains d = [h]) conns)"
    by (simp add: Suc_le_eq)
next
  show "loop_occurrences h conns =
     length (filter (loops_at h) conns) + length (filter (rule_loops_at h) conns)
       + length (filter (source_loops_at h) conns)"
    by (rule loop_occurrences_def)
  show "length (filter (\<lambda>d. chains d = [h]) conns) \<le> length (filter (loops_at h) conns)"
    by (rule length_filter_mono) (rule single_hop_loops)
next
  assume "(\<forall>d\<in>set conns. \<not> rule_loops_at h d \<and> \<not> source_loops_at h d) \<and>
    (\<forall>d\<in>set conns. loops_at h d \<longrightarrow> chains d = [h])"
  then show "loop_occurrences h conns = length (filter (\<lambda>d. chains d = [h]) conns)"
    by (intro loop_occurrences_single) simp_all
qed

theorem C10_self_loop_witness:
  "sample_second \<in> set [sample_first, sample_second, sample_second] \<and>
   chains sample_second = [''Match''] \<and>
   length (filter (\<lambda>d. chains d = [''Match'']) [sample_first, sample_second, sample_second]) = 2 \<and>
   id_of (sankeyData [sample_first, sample_second, sample_second]) ''Match'' = Some 1 \<and>
   conn_edges (sankeyData [sample_first, sample_second, sample_second]) sample_second ! 2
     = (Some 1, Some 1) \<and>
   weight_of (sankeyData [sample_first, sample_second, sample_second]) (Some 1, Some 1) = Some 2"
proof -
  let ?cs = "[sample_first, sample_second, sample_second]"
  have ch: "chains sample_second = [''Match'']" "chains sample_first = [''HK'', ''Proxy'']"
    by (simp_all add: sample_second_def sample_first_def)
  have nm: "rulePayload_of sample_second = ''Domain: x.com''"
    "rulePayload_of sample_first = ''Match''"
    "sourceIP_of sample_first = ''10.0.0.1''" "sourceIP_of sample_second = ''10.0.0.2''"
    by (simp_all add: sample_second_def sample_first_def rulePayload_of_def sourceIP_of_def
        str_or_def)
  have n: "length (filter (\<lambda>d. chains d = [''Match'']) ?cs) = 2"
    by (simp add: ch)
  have hyp1: "\<forall>d\<in>set ?cs. \<not> rule_loops_at ''Match'' d \<and> \<not> source_loops_at ''Match'' d"
    by (simp add: rule_loops_at_def source_loops_at_def ch nm)
  have hyp2: "\<forall>d\<in>set ?cs. loops_at ''Match'' d \<longrightarrow> chains d = [''Match'']"
    by (simp add: loops_at_def ch)
  have idm: "id_of (sankeyData ?cs) ''Match'' = Some 1"
    by (simp add: id_of_def nodes_sankeyData node_of_def encounters_def conn_names_def
        nm ch upt_rec)
  note inst = C10_self_loop [of sample_second ?cs "''Match''"]
  have "loop_occurrences ''Match'' ?cs = length (filter (\<lambda>d. chains d = [''Match'']) ?cs)"
    by (rule inst [THEN conjunct2, THEN conjunct2, THEN conjunct2, THEN mp])
      (rule conjI, rule hyp1, rule hyp2)
  with n have w: "loop_occurrences ''Match'' ?cs = 2" by (simp only:)
  have mem: "sample_second \<in> set ?cs" by simp
  have "\<exists>i. id_of (sankeyData ?cs) ''Match'' = Some i \<and>
           conn_edges (sankeyData ?cs) sample_second ! 2 = (Some i, Some i) \<and>
           weight_of (sankeyData ?cs) (Some i, Some i) = Some (loop_occurrences ''Match'' ?cs) \<and>
           (\<exists>l\<in>set (links (sankeyData ?cs)).
               link_source l = Some i \<and> link_target l = Some i \<and>
               link_value l = loop_occurrences ''Match'' ?cs)"
    by (rule inst [THEN conjunct1, THEN mp, THEN conjunct1]) (rule conjI, rule mem, rule ch(1))
  then obtain i where i: "id_of (sankeyData ?cs) ''Match'' = Some i"
    "conn_edges (sankeyData ?cs) sample_second ! 2 = (Some i, Some i)"
    "weight_of (sankeyData ?cs) (Some i, Some i) = Some (loop_occurrences ''Match'' ?cs)"
    by blast
  from i(1) idm have "i = 1" by (simp only: option.inject)
  with i w have e: "conn_edges (sankeyData ?cs) sample_second ! 2 = (Some 1, Some 1)"
    "weight_of (sankeyData ?cs) (Some 1, Some 1) = Some 2"
    by (simp_all only:)
  from mem ch(1) n idm e show ?thesis by (iprover intro: conjI)
qed

end
